theory Spec2Isabelle
  imports Main "HOL-Library.Char_ord" "HOL-Library.List_Lexorder"
begin

section \<open>Group balances of Splitr: the query \<open>getGroupExpenses\<close>\<close>

text \<open>
  The development embeds the handler of the query \<open>getGroupExpenses\<close> (the second query of
  the groups module): it reads a group, its expenses, its settlements and its members,
  folds the expense splits and the settlements into per-member net totals and a pairwise
  ledger, nets the ledger so that each pair keeps one direction, and shapes one balance
  record per member.

  Conventions of the embedding.
  \<^item> Document ids are the type parameter \<open>'id\<close> of sort \<open>linorder\<close>: the handler only
    tests ids with \<open>===\<close>, \<open>!==\<close> and \<open>>=\<close>, and on id strings \<open>>=\<close> is a total order.
    The concrete examples use strings.
  \<^item> The handler is embedded twice. First with exact arithmetic: a number is \<open>Num n\<close>
    with \<open>n\<close> an integer, or \<open>NaN\<close>, and \<open>+\<close> and \<open>-\<close> do not round. Then in double
    precision, the arithmetic of the handler itself: a number is a \<open>float64\<close>, and \<open>+\<close>
    and \<open>-\<close> round to the nearest double. The two agree on every input whose amounts
    are whole numbers with absolute values that total at most \<open>2^53\<close> (lemmas
    \<open>before_netting_refines\<close> and \<open>balances_refines\<close>). Reading a missing property gives
    \<open>undefined\<close>, the \<open>None\<close> of an option.
  \<^item> An object whose keys are enumerated (a row of the ledger, read by
    \<open>Object.entries\<close>) is an association list in insertion order; the ids are not
    array-index strings, so insertion order is the order of enumeration. An object that
    is only read by key (\<open>totals\<close>, the outer \<open>ledger\<close>) is a map.
  \<^item> A thrown exception is the \<open>Inl\<close> of a sum.
\<close>

subsection \<open>Numbers and errors\<close>

datatype jsnum = Num int | NaN

text \<open>
  \<open>TypeError\<close> is what reading a property of \<open>undefined\<close> or \<open>null\<close> throws;
  \<open>GroupNotFound\<close> and \<open>NotAMember\<close> are the handler's own errors "Group not found" and
  "You are not a member of this group".
\<close>

datatype error = TypeError | GroupNotFound | NotAMember

text \<open>
  \<open>x += amt\<close> and \<open>x -= amt\<close> in exact arithmetic, where \<open>x\<close> is a property that may
  be missing. The rounding versions are \<open>js_add64\<close> and \<open>js_sub64\<close> below.
\<close>

fun js_add :: "jsnum option \<Rightarrow> int \<Rightarrow> jsnum" where
  "js_add (Some (Num x)) amt = Num (x + amt)"
| "js_add _ _ = NaN"

fun js_sub :: "jsnum option \<Rightarrow> int \<Rightarrow> jsnum" where
  "js_sub (Some (Num x)) amt = Num (x - amt)"
| "js_sub _ _ = NaN"

text \<open>\<open>x - y\<close> on two properties, \<open>v > 0\<close>, \<open>v < 0\<close> and \<open>-v\<close>.\<close>

fun js_diff :: "jsnum option \<Rightarrow> jsnum option \<Rightarrow> jsnum" where
  "js_diff (Some (Num x)) (Some (Num y)) = Num (x - y)"
| "js_diff _ _ = NaN"

fun js_gt0 :: "jsnum \<Rightarrow> bool" where
  "js_gt0 (Num x) = (0 < x)"
| "js_gt0 NaN = False"

fun js_lt0 :: "jsnum \<Rightarrow> bool" where
  "js_lt0 (Num x) = (x < 0)"
| "js_lt0 NaN = False"

fun js_neg :: "jsnum \<Rightarrow> jsnum" where
  "js_neg (Num x) = Num (- x)"
| "js_neg NaN = NaN"

text \<open>\<open>s + v\<close> in a running sum that starts at the number 0.\<close>

fun js_plus :: "jsnum \<Rightarrow> jsnum option \<Rightarrow> jsnum" where
  "js_plus (Num s) (Some (Num v)) = Num (s + v)"
| "js_plus _ _ = NaN"

definition js_total :: "jsnum option list \<Rightarrow> jsnum" where
  "js_total vs = fold (\<lambda>v s. js_plus s v) vs (Num 0)"

subsection \<open>Objects with enumerable keys\<close>

text \<open>\<open>obj[k] = v\<close>: an existing key keeps its place, a new key goes last.\<close>

fun put :: "'k \<Rightarrow> 'v \<Rightarrow> ('k \<times> 'v) list \<Rightarrow> ('k \<times> 'v) list" where
  "put k v [] = [(k, v)]"
| "put k v (p # ps) = (if fst p = k then (k, v) # ps else p # put k v ps)"

subsection \<open>Documents\<close>

record 'id expense_split =
  userId :: 'id
  amount :: int
  paid :: bool

record 'id expense =
  groupId :: 'id
  paidByUserId :: 'id
  splits :: "'id expense_split list"

record 'id settlement =
  s_groupId :: 'id
  s_paidByUserId :: 'id
  s_receivedByUserId :: 'id
  s_amount :: int

record 'id member =
  m_userId :: 'id
  m_role :: string

record 'id group_doc =
  g_name :: string
  g_description :: string
  members :: "'id member list"

record user_doc =
  u_name :: string
  u_imageUrl :: string

record 'id database =
  db_groups :: "'id \<rightharpoonup> 'id group_doc"
  db_users :: "'id \<rightharpoonup> user_doc"
  db_expenses :: "'id expense list"
  db_settlements :: "'id settlement list"

datatype 'id db_read = Get 'id | QueryExpenses 'id | QuerySettlements 'id

subsection \<open>The working state and the result\<close>

type_synonym 'id row = "('id \<times> jsnum) list"

record 'id acc =
  totals :: "'id \<rightharpoonup> jsnum"
  ledger :: "'id \<rightharpoonup> 'id row"

record 'id memberDetail =
  md_id :: 'id
  md_name :: string
  md_imageUrl :: string
  md_role :: string

text \<open>
  A balance is the member's details with \<open>totalBalance\<close>, \<open>owes\<close> (pairs \<open>(to, amount)\<close>)
  and \<open>owedBy\<close> (pairs \<open>(from, amount)\<close>).
\<close>

record 'id balance = "'id memberDetail" +
  totalBalance :: "jsnum option"
  owes :: "'id row"
  owedBy :: "'id row"

record 'id response =
  r_group :: "'id \<times> string \<times> string"
  r_members :: "'id memberDetail list"
  r_expenses :: "'id expense list"
  r_settlements :: "'id settlement list"
  r_balances :: "'id balance list"
  userLookupMap :: "'id \<rightharpoonup> 'id memberDetail"

subsection \<open>Loops that an exception leaves\<close>

fun for_of :: "('s \<Rightarrow> 'a \<Rightarrow> error + 's) \<Rightarrow> 'a list \<Rightarrow> 's \<Rightarrow> error + 's" where
  "for_of f [] s = Inr s"
| "for_of f (x # xs) s = (case f s x of Inl e \<Rightarrow> Inl e | Inr s' \<Rightarrow> for_of f xs s')"

fun map_err :: "('a \<Rightarrow> error + 'b) \<Rightarrow> 'a list \<Rightarrow> error + 'b list" where
  "map_err f [] = Inr []"
| "map_err f (x # xs) =
     (case f x of Inl e \<Rightarrow> Inl e
      | Inr y \<Rightarrow> (case map_err f xs of Inl e \<Rightarrow> Inl e | Inr ys \<Rightarrow> Inr (y # ys)))"

subsection \<open>Step 2: initialise the ledgers\<close>

text \<open>
  Lines 139 to 148: every member gets the total 0 and a fresh row with the entry 0 for
  every other member, so a row has no entry for its own member.
\<close>

definition init_totals :: "'id list \<Rightarrow> ('id \<rightharpoonup> jsnum)" where
  "init_totals ids = fold (\<lambda>i t. t(i \<mapsto> Num 0)) ids Map.empty"

definition init_row :: "'id list \<Rightarrow> 'id \<Rightarrow> 'id row" where
  "init_row ids a = fold (\<lambda>b r. if a \<noteq> b then put b (Num 0) r else r) ids []"

definition init_ledger :: "'id list \<Rightarrow> ('id \<rightharpoonup> 'id row)" where
  "init_ledger ids = fold (\<lambda>a L. L(a \<mapsto> init_row ids a)) ids Map.empty"

definition init :: "'id list \<Rightarrow> 'id acc" where
  "init ids = \<lparr>totals = init_totals ids, ledger = init_ledger ids\<rparr>"

subsection \<open>Step 3: apply expenses\<close>

text \<open>
  Lines 151 to 167. The body of the inner loop skips the payer's own split and the splits
  already paid; otherwise it updates the two totals and then the cell of the debtor
  towards the payer, which throws when the debtor has no row.
\<close>

definition apply_split :: "'id \<Rightarrow> 'id acc \<Rightarrow> 'id expense_split \<Rightarrow> error + 'id acc" where
  "apply_split payer st sp =
     (if userId sp = payer \<or> paid sp then Inr st
      else
        let debtor = userId sp;
            amt = amount sp;
            t1 = (totals st)(payer \<mapsto> js_add (totals st payer) amt);
            t2 = t1(debtor \<mapsto> js_sub (t1 debtor) amt)
        in case ledger st debtor of
             None \<Rightarrow> Inl TypeError
           | Some r \<Rightarrow>
               Inr \<lparr>totals = t2,
                    ledger = (ledger st)(debtor \<mapsto> put payer (js_add (map_of r payer) amt) r)\<rparr>)"

definition apply_expense :: "'id acc \<Rightarrow> 'id expense \<Rightarrow> error + 'id acc" where
  "apply_expense st exp = for_of (apply_split (paidByUserId exp)) (splits exp) st"

definition apply_expenses :: "'id acc \<Rightarrow> 'id expense list \<Rightarrow> error + 'id acc" where
  "apply_expenses st expenses = for_of apply_expense expenses st"

subsection \<open>Step 4: apply settlements\<close>

text \<open>
  Lines 170 to 177: no test at all, the payer may be the receiver and the amount may
  exceed the debt.
\<close>

definition apply_settlement :: "'id acc \<Rightarrow> 'id settlement \<Rightarrow> error + 'id acc" where
  "apply_settlement st s =
     (let t1 = (totals st)(s_paidByUserId s \<mapsto> js_add (totals st (s_paidByUserId s)) (s_amount s));
          t2 = t1(s_receivedByUserId s \<mapsto> js_sub (t1 (s_receivedByUserId s)) (s_amount s))
      in case ledger st (s_paidByUserId s) of
           None \<Rightarrow> Inl TypeError
         | Some r \<Rightarrow>
             Inr \<lparr>totals = t2,
                  ledger = (ledger st)(s_paidByUserId s \<mapsto>
                    put (s_receivedByUserId s)
                      (js_sub (map_of r (s_receivedByUserId s)) (s_amount s)) r)\<rparr>)"

definition apply_settlements :: "'id acc \<Rightarrow> 'id settlement list \<Rightarrow> error + 'id acc" where
  "apply_settlements st settlements = for_of apply_settlement settlements st"

text \<open>The state after steps 2 to 4, before the netting pass.\<close>

definition before_netting ::
  "'id list \<Rightarrow> 'id expense list \<Rightarrow> 'id settlement list \<Rightarrow> error + 'id acc" where
  "before_netting ids expenses settlements =
     (case apply_expenses (init ids) expenses of
        Inl e \<Rightarrow> Inl e
      | Inr st \<Rightarrow> apply_settlements st settlements)"

subsection \<open>Step 5: net off ledger balances\<close>

text \<open>
  Lines 181 to 197. \<open>net_pair\<close> is the body of the inner \<open>forEach\<close>, for the pair
  \<open>(a, b)\<close>. When \<open>a < b\<close> the two rows are different objects, so the two assignments of
  a branch do not interfere. A difference that is \<open>NaN\<close> is neither positive nor negative
  and takes the last branch.
\<close>

definition net_pair :: "'id::linorder \<Rightarrow> 'id acc \<Rightarrow> 'id \<Rightarrow> error + 'id acc" where
  "net_pair a st b =
     (if a \<ge> b then Inr st
      else case ledger st a of
        None \<Rightarrow> Inl TypeError
      | Some ra \<Rightarrow>
         (case ledger st b of
            None \<Rightarrow> Inl TypeError
          | Some rb \<Rightarrow>
              let diff = js_diff (map_of ra b) (map_of rb a) in
              if js_gt0 diff then
                Inr (st\<lparr>ledger := (ledger st)(a \<mapsto> put b diff ra, b \<mapsto> put a (Num 0) rb)\<rparr>)
              else if js_lt0 diff then
                Inr (st\<lparr>ledger := (ledger st)(b \<mapsto> put a (js_neg diff) rb, a \<mapsto> put b (Num 0) ra)\<rparr>)
              else
                Inr (st\<lparr>ledger := (ledger st)(b \<mapsto> put a (Num 0) rb, a \<mapsto> put b (Num 0) ra)\<rparr>)))"

definition net_off :: "'id::linorder list \<Rightarrow> 'id acc \<Rightarrow> error + 'id acc" where
  "net_off ids st = for_of (\<lambda>st' a. for_of (net_pair a) ids st') ids st"

subsection \<open>Step 6: shape balances per member\<close>

text \<open>
  Lines 200 to 209. \<open>owes\<close> keeps the entries of the member's row whose value is
  greater than 0, in the order of the row.
\<close>

definition owes_of :: "'id row \<Rightarrow> 'id row" where
  "owes_of r = filter (\<lambda>(to, v). js_gt0 v) r"

text \<open>
  \<open>ids.filter((other) => ledger[other][m.id] > 0)\<close> followed by the \<open>map\<close> that reads the
  cell again: reading a property of a missing row throws.
\<close>

fun owedBy_of :: "('id \<rightharpoonup> 'id row) \<Rightarrow> 'id \<Rightarrow> 'id list \<Rightarrow> error + 'id row" where
  "owedBy_of L m [] = Inr []"
| "owedBy_of L m (other # rest) =
     (case L other of
        None \<Rightarrow> Inl TypeError
      | Some r \<Rightarrow>
         (case owedBy_of L m rest of
            Inl e \<Rightarrow> Inl e
          | Inr ob \<Rightarrow>
             (case map_of r m of
                None \<Rightarrow> Inr ob
              | Some v \<Rightarrow> if js_gt0 v then Inr ((other, v) # ob) else Inr ob)))"

definition shape_member :: "'id list \<Rightarrow> 'id acc \<Rightarrow> 'id memberDetail \<Rightarrow> error + 'id balance" where
  "shape_member ids st m =
     (case ledger st (md_id m) of
        None \<Rightarrow> Inl TypeError
      | Some r \<Rightarrow>
         (case owedBy_of (ledger st) (md_id m) ids of
            Inl e \<Rightarrow> Inl e
          | Inr ob \<Rightarrow>
              Inr \<lparr>md_id = md_id m, md_name = md_name m, md_imageUrl = md_imageUrl m,
                   md_role = md_role m,
                   totalBalance = totals st (md_id m), owes = owes_of r, owedBy = ob\<rparr>))"

definition shape_balances ::
  "'id list \<Rightarrow> 'id acc \<Rightarrow> 'id memberDetail list \<Rightarrow> error + 'id balance list" where
  "shape_balances ids st memberDetails = map_err (shape_member ids st) memberDetails"

subsection \<open>Steps 2 to 6 together\<close>

text \<open>
  \<open>netted\<close> is the state after the netting pass and \<open>balances\<close> the list that step 6
  makes of it, for the ids of the member details.
\<close>

definition netted ::
  "'id::linorder list \<Rightarrow> 'id expense list \<Rightarrow> 'id settlement list \<Rightarrow> error + 'id acc" where
  "netted ids expenses settlements =
     (case before_netting ids expenses settlements of
        Inl e \<Rightarrow> Inl e
      | Inr st \<Rightarrow> net_off ids st)"

definition balances ::
  "'id::linorder memberDetail list \<Rightarrow> 'id expense list \<Rightarrow> 'id settlement list
     \<Rightarrow> error + 'id balance list" where
  "balances memberDetails expenses settlements =
     (let ids = map md_id memberDetails in
      case netted ids expenses settlements of
        Inl e \<Rightarrow> Inl e
      | Inr st \<Rightarrow> shape_balances ids st memberDetails)"

subsection \<open>The handler\<close>

text \<open>
  Lines 104 to 135 and 212 to 229. The current user comes from the internal query
  \<open>getCurrentUser\<close> of the users module, which is a parameter here. The handler returns the reads it has issued, in order, and
  either the error it throws or its response. A document read by its id has that id as
  its \<open>_id\<close>, so the id of a member's details is the member's \<open>userId\<close>; the user document
  of a member may be gone, and reading \<open>_id\<close> of \<open>null\<close> throws.
\<close>

definition member_detail :: "'id database \<Rightarrow> 'id member \<Rightarrow> error + 'id memberDetail" where
  "member_detail db m =
     (case db_users db (m_userId m) of
        None \<Rightarrow> Inl TypeError
      | Some u \<Rightarrow>
          Inr \<lparr>md_id = m_userId m, md_name = u_name u, md_imageUrl = u_imageUrl u,
               md_role = m_role m\<rparr>)"

definition getGroupExpenses ::
  "'id::linorder database \<Rightarrow> 'id \<Rightarrow> 'id \<Rightarrow> 'id db_read list \<times> (error + 'id response)" where
  "getGroupExpenses db currentUser gid =
     (case db_groups db gid of
        None \<Rightarrow> ([Get gid], Inl GroupNotFound)
      | Some grp \<Rightarrow>
          if \<not> list_ex (\<lambda>m. m_userId m = currentUser) (members grp)
          then ([Get gid], Inl NotAMember)
          else
            let expenses = filter (\<lambda>e. groupId e = gid) (db_expenses db);
                settlements = filter (\<lambda>s. s_groupId s = gid) (db_settlements db);
                reads = [Get gid, QueryExpenses gid, QuerySettlements gid]
                          @ map (\<lambda>m. Get (m_userId m)) (members grp)
            in (case map_err (member_detail db) (members grp) of
                  Inl e \<Rightarrow> (reads, Inl e)
                | Inr memberDetails \<Rightarrow>
                  (case balances memberDetails expenses settlements of
                     Inl e \<Rightarrow> (reads, Inl e)
                   | Inr bs \<Rightarrow>
                       (reads,
                        Inr \<lparr>r_group = (gid, g_name grp, g_description grp),
                             r_members = memberDetails,
                             r_expenses = expenses,
                             r_settlements = settlements,
                             r_balances = bs,
                             userLookupMap =
                               fold (\<lambda>m M. M(md_id m \<mapsto> m)) memberDetails Map.empty\<rparr>))))"

section \<open>The same handler in double precision\<close>

text \<open>
  The numbers of the handler are IEEE 754 doubles, and \<open>+\<close> and \<open>-\<close> round their exact
  result to the nearest double, ties to the double with an even significand. This section
  embeds the steps 2 to 6 once more with that arithmetic; apart from the arithmetic the
  definitions are those of the sections above, and carry their names with the suffix
  \<open>64\<close>.
\<close>

subsection \<open>Doubles\<close>

text \<open>
  Every finite double is an integer multiple of \<open>2^-1074\<close>, the smallest positive double:
  \<open>Finite n\<close> is the number \<open>n * 2^-1074\<close>. The two zeros are one value here; the handler
  never tells them apart. \<open>dyadic m e\<close> is \<open>m * 2^-e\<close> for \<open>e\<close> up to 1074, and
  \<open>whole64 w\<close> the whole number \<open>w\<close>.
\<close>

datatype float64 = Finite int | Infinity | NegInfinity | NotANumber

definition dyadic :: "int \<Rightarrow> nat \<Rightarrow> float64" where
  "dyadic m e = Finite (m * 2 ^ (1074 - e))"

definition whole64 :: "int \<Rightarrow> float64" where
  "whole64 w = dyadic w 0"

text \<open>
  Rounding. \<open>bits n\<close> is the length of the binary numeral of \<open>n\<close>, and
  \<open>nearest_even a k\<close> the multiple of \<open>2^k\<close> nearest to \<open>a\<close>, the even one of two that are
  equally near. A double has 53 significant bits, so \<open>round64\<close> rounds away the bits below
  the leading 53; below \<open>2^53\<close> units nothing is rounded, which covers the subnormal
  doubles. \<open>2^1024\<close> is \<open>2^2098\<close> units: a result rounded that far is infinite.
\<close>

function bits :: "int \<Rightarrow> nat" where
  "bits n = (if n \<le> 0 then 0 else Suc (bits (n div 2)))"
  by pat_completeness auto
termination
  by (relation "measure nat") auto

definition nearest_even :: "int \<Rightarrow> nat \<Rightarrow> int" where
  "nearest_even a k =
     (let q = a div 2 ^ k; r = a mod 2 ^ k in
      if 2 * r < 2 ^ k then q * 2 ^ k
      else if 2 ^ k < 2 * r then (q + 1) * 2 ^ k
      else if even q then q * 2 ^ k
      else (q + 1) * 2 ^ k)"

definition round64 :: "int \<Rightarrow> float64" where
  "round64 n =
     (let m = nearest_even \<bar>n\<bar> (bits \<bar>n\<bar> - 53) in
      if 2 ^ 2098 \<le> m then (if 0 < n then Infinity else NegInfinity)
      else Finite (sgn n * m))"

text \<open>
  \<open>x + y\<close>, \<open>-x\<close>, \<open>x - y\<close>, \<open>x > 0\<close> and \<open>x < 0\<close>. A sum with \<open>NaN\<close>, and the sum of the
  two infinities, is \<open>NaN\<close>; \<open>NaN\<close> compares false.
\<close>

fun add64 :: "float64 \<Rightarrow> float64 \<Rightarrow> float64" where
  "add64 (Finite x) (Finite y) = round64 (x + y)"
| "add64 NotANumber _ = NotANumber"
| "add64 _ NotANumber = NotANumber"
| "add64 Infinity NegInfinity = NotANumber"
| "add64 NegInfinity Infinity = NotANumber"
| "add64 Infinity _ = Infinity"
| "add64 _ Infinity = Infinity"
| "add64 NegInfinity _ = NegInfinity"
| "add64 _ NegInfinity = NegInfinity"

fun neg64 :: "float64 \<Rightarrow> float64" where
  "neg64 (Finite x) = Finite (- x)"
| "neg64 Infinity = NegInfinity"
| "neg64 NegInfinity = Infinity"
| "neg64 NotANumber = NotANumber"

definition sub64 :: "float64 \<Rightarrow> float64 \<Rightarrow> float64" where
  "sub64 x y = add64 x (neg64 y)"

fun gt0_64 :: "float64 \<Rightarrow> bool" where
  "gt0_64 (Finite x) = (0 < x)"
| "gt0_64 Infinity = True"
| "gt0_64 _ = False"

fun lt0_64 :: "float64 \<Rightarrow> bool" where
  "lt0_64 (Finite x) = (x < 0)"
| "lt0_64 NegInfinity = True"
| "lt0_64 _ = False"

text \<open>\<open>x += amt\<close>, \<open>x -= amt\<close> and \<open>x - y\<close>, where a property may be missing.\<close>

fun js_add64 :: "float64 option \<Rightarrow> float64 \<Rightarrow> float64" where
  "js_add64 (Some x) amt = add64 x amt"
| "js_add64 None _ = NotANumber"

fun js_sub64 :: "float64 option \<Rightarrow> float64 \<Rightarrow> float64" where
  "js_sub64 (Some x) amt = sub64 x amt"
| "js_sub64 None _ = NotANumber"

fun js_diff64 :: "float64 option \<Rightarrow> float64 option \<Rightarrow> float64" where
  "js_diff64 (Some x) (Some y) = sub64 x y"
| "js_diff64 _ _ = NotANumber"

subsection \<open>Documents and state in double precision\<close>

text \<open>The documents, the working state and the balance, with amounts that are doubles.\<close>

record 'id expense_split64 =
  userId64 :: 'id
  amount64 :: float64
  paid64 :: bool

record 'id expense64 =
  groupId64 :: 'id
  paidByUserId64 :: 'id
  splits64 :: "'id expense_split64 list"

record 'id settlement64 =
  s_groupId64 :: 'id
  s_paidByUserId64 :: 'id
  s_receivedByUserId64 :: 'id
  s_amount64 :: float64

type_synonym 'id row64 = "('id \<times> float64) list"

record 'id acc64 =
  totals64 :: "'id \<rightharpoonup> float64"
  ledger64 :: "'id \<rightharpoonup> 'id row64"

record 'id balance64 = "'id memberDetail" +
  totalBalance64 :: "float64 option"
  owes64 :: "'id row64"
  owedBy64 :: "'id row64"

subsection \<open>Steps 2 to 6 in double precision\<close>

text \<open>Lines 139 to 148.\<close>

definition init_totals64 :: "'id list \<Rightarrow> ('id \<rightharpoonup> float64)" where
  "init_totals64 ids = fold (\<lambda>i t. t(i \<mapsto> Finite 0)) ids Map.empty"

definition init_row64 :: "'id list \<Rightarrow> 'id \<Rightarrow> 'id row64" where
  "init_row64 ids a = fold (\<lambda>b r. if a \<noteq> b then put b (Finite 0) r else r) ids []"

definition init_ledger64 :: "'id list \<Rightarrow> ('id \<rightharpoonup> 'id row64)" where
  "init_ledger64 ids = fold (\<lambda>a L. L(a \<mapsto> init_row64 ids a)) ids Map.empty"

definition init64 :: "'id list \<Rightarrow> 'id acc64" where
  "init64 ids = \<lparr>totals64 = init_totals64 ids, ledger64 = init_ledger64 ids\<rparr>"

text \<open>Lines 151 to 167.\<close>

definition apply_split64 :: "'id \<Rightarrow> 'id acc64 \<Rightarrow> 'id expense_split64 \<Rightarrow> error + 'id acc64" where
  "apply_split64 payer st sp =
     (if userId64 sp = payer \<or> paid64 sp then Inr st
      else
        let debtor = userId64 sp;
            amt = amount64 sp;
            t1 = (totals64 st)(payer \<mapsto> js_add64 (totals64 st payer) amt);
            t2 = t1(debtor \<mapsto> js_sub64 (t1 debtor) amt)
        in case ledger64 st debtor of
             None \<Rightarrow> Inl TypeError
           | Some r \<Rightarrow>
               Inr \<lparr>totals64 = t2,
                    ledger64 = (ledger64 st)(debtor \<mapsto> put payer (js_add64 (map_of r payer) amt) r)\<rparr>)"

definition apply_expense64 :: "'id acc64 \<Rightarrow> 'id expense64 \<Rightarrow> error + 'id acc64" where
  "apply_expense64 st exp = for_of (apply_split64 (paidByUserId64 exp)) (splits64 exp) st"

definition apply_expenses64 :: "'id acc64 \<Rightarrow> 'id expense64 list \<Rightarrow> error + 'id acc64" where
  "apply_expenses64 st expenses = for_of apply_expense64 expenses st"

text \<open>Lines 170 to 177, and the state before the netting pass.\<close>

definition apply_settlement64 :: "'id acc64 \<Rightarrow> 'id settlement64 \<Rightarrow> error + 'id acc64" where
  "apply_settlement64 st s =
     (let t1 = (totals64 st)(s_paidByUserId64 s \<mapsto> js_add64 (totals64 st (s_paidByUserId64 s)) (s_amount64 s));
          t2 = t1(s_receivedByUserId64 s \<mapsto> js_sub64 (t1 (s_receivedByUserId64 s)) (s_amount64 s))
      in case ledger64 st (s_paidByUserId64 s) of
           None \<Rightarrow> Inl TypeError
         | Some r \<Rightarrow>
             Inr \<lparr>totals64 = t2,
                  ledger64 = (ledger64 st)(s_paidByUserId64 s \<mapsto>
                    put (s_receivedByUserId64 s)
                      (js_sub64 (map_of r (s_receivedByUserId64 s)) (s_amount64 s)) r)\<rparr>)"

definition apply_settlements64 :: "'id acc64 \<Rightarrow> 'id settlement64 list \<Rightarrow> error + 'id acc64" where
  "apply_settlements64 st settlements = for_of apply_settlement64 settlements st"

definition before_netting64 ::
  "'id list \<Rightarrow> 'id expense64 list \<Rightarrow> 'id settlement64 list \<Rightarrow> error + 'id acc64" where
  "before_netting64 ids expenses settlements =
     (case apply_expenses64 (init64 ids) expenses of
        Inl e \<Rightarrow> Inl e
      | Inr st \<Rightarrow> apply_settlements64 st settlements)"

text \<open>Lines 181 to 197.\<close>

definition net_pair64 :: "'id::linorder \<Rightarrow> 'id acc64 \<Rightarrow> 'id \<Rightarrow> error + 'id acc64" where
  "net_pair64 a st b =
     (if a \<ge> b then Inr st
      else case ledger64 st a of
        None \<Rightarrow> Inl TypeError
      | Some ra \<Rightarrow>
         (case ledger64 st b of
            None \<Rightarrow> Inl TypeError
          | Some rb \<Rightarrow>
              let diff = js_diff64 (map_of ra b) (map_of rb a) in
              if gt0_64 diff then
                Inr (st\<lparr>ledger64 := (ledger64 st)(a \<mapsto> put b diff ra, b \<mapsto> put a (Finite 0) rb)\<rparr>)
              else if lt0_64 diff then
                Inr (st\<lparr>ledger64 := (ledger64 st)(b \<mapsto> put a (neg64 diff) rb, a \<mapsto> put b (Finite 0) ra)\<rparr>)
              else
                Inr (st\<lparr>ledger64 := (ledger64 st)(b \<mapsto> put a (Finite 0) rb, a \<mapsto> put b (Finite 0) ra)\<rparr>)))"

definition net_off64 :: "'id::linorder list \<Rightarrow> 'id acc64 \<Rightarrow> error + 'id acc64" where
  "net_off64 ids st = for_of (\<lambda>st' a. for_of (net_pair64 a) ids st') ids st"

text \<open>Lines 200 to 209.\<close>

definition owes_of64 :: "'id row64 \<Rightarrow> 'id row64" where
  "owes_of64 r = filter (\<lambda>(to, v). gt0_64 v) r"

fun owedBy_of64 :: "('id \<rightharpoonup> 'id row64) \<Rightarrow> 'id \<Rightarrow> 'id list \<Rightarrow> error + 'id row64" where
  "owedBy_of64 L m [] = Inr []"
| "owedBy_of64 L m (other # rest) =
     (case L other of
        None \<Rightarrow> Inl TypeError
      | Some r \<Rightarrow>
         (case owedBy_of64 L m rest of
            Inl e \<Rightarrow> Inl e
          | Inr ob \<Rightarrow>
             (case map_of r m of
                None \<Rightarrow> Inr ob
              | Some v \<Rightarrow> if gt0_64 v then Inr ((other, v) # ob) else Inr ob)))"

definition shape_member64 :: "'id list \<Rightarrow> 'id acc64 \<Rightarrow> 'id memberDetail \<Rightarrow> error + 'id balance64" where
  "shape_member64 ids st m =
     (case ledger64 st (md_id m) of
        None \<Rightarrow> Inl TypeError
      | Some r \<Rightarrow>
         (case owedBy_of64 (ledger64 st) (md_id m) ids of
            Inl e \<Rightarrow> Inl e
          | Inr ob \<Rightarrow>
              Inr \<lparr>md_id = md_id m, md_name = md_name m, md_imageUrl = md_imageUrl m,
                   md_role = md_role m,
                   totalBalance64 = totals64 st (md_id m), owes64 = owes_of64 r, owedBy64 = ob\<rparr>))"

definition shape_balances64 ::
  "'id list \<Rightarrow> 'id acc64 \<Rightarrow> 'id memberDetail list \<Rightarrow> error + 'id balance64 list" where
  "shape_balances64 ids st memberDetails = map_err (shape_member64 ids st) memberDetails"

definition netted64 ::
  "'id::linorder list \<Rightarrow> 'id expense64 list \<Rightarrow> 'id settlement64 list \<Rightarrow> error + 'id acc64" where
  "netted64 ids expenses settlements =
     (case before_netting64 ids expenses settlements of
        Inl e \<Rightarrow> Inl e
      | Inr st \<Rightarrow> net_off64 ids st)"

definition balances64 ::
  "'id::linorder memberDetail list \<Rightarrow> 'id expense64 list \<Rightarrow> 'id settlement64 list
     \<Rightarrow> error + 'id balance64 list" where
  "balances64 memberDetails expenses settlements =
     (let ids = map md_id memberDetails in
      case netted64 ids expenses settlements of
        Inl e \<Rightarrow> Inl e
      | Inr st \<Rightarrow> shape_balances64 ids st memberDetails)"

section \<open>Observations, notions of the proofs and examples\<close>

subsection \<open>Observations used in the statements\<close>

text \<open>
  \<open>cell L a b\<close> is what the ledger holds for \<open>a\<close> owing \<open>b\<close>: \<open>None\<close> when the row or
  the key is missing. A pair is canonical when both directions are numbers, neither is
  negative and at most one is nonzero. An input is valid when every payer, split user
  and receiver is in the roster. \<open>reported_totals\<close> lists the \<open>totalBalance\<close> of each
  member of the output once.
\<close>

definition cell :: "('id \<rightharpoonup> 'id row) \<Rightarrow> 'id \<Rightarrow> 'id \<Rightarrow> jsnum option" where
  "cell L a b = (case L a of None \<Rightarrow> None | Some r \<Rightarrow> map_of r b)"

definition canonical_pair :: "('id \<rightharpoonup> 'id row) \<Rightarrow> 'id \<Rightarrow> 'id \<Rightarrow> bool" where
  "canonical_pair L a b =
     (case (cell L a b, cell L b a) of
        (Some (Num x), Some (Num y)) \<Rightarrow> 0 \<le> x \<and> 0 \<le> y \<and> (x = 0 \<or> y = 0)
      | _ \<Rightarrow> False)"

definition canonical :: "'id list \<Rightarrow> ('id \<rightharpoonup> 'id row) \<Rightarrow> bool" where
  "canonical ids L = (\<forall>a\<in>set ids. \<forall>b\<in>set ids. a \<noteq> b \<longrightarrow> canonical_pair L a b)"

definition valid_input :: "'id list \<Rightarrow> 'id expense list \<Rightarrow> 'id settlement list \<Rightarrow> bool" where
  "valid_input ids expenses settlements \<longleftrightarrow>
     (\<forall>e\<in>set expenses. paidByUserId e \<in> set ids \<and> (\<forall>sp\<in>set (splits e). userId sp \<in> set ids))
     \<and> (\<forall>s\<in>set settlements. s_paidByUserId s \<in> set ids \<and> s_receivedByUserId s \<in> set ids)"

definition reported_totals :: "'id balance list \<Rightarrow> ('id \<times> jsnum option) list" where
  "reported_totals bs = remdups (map (\<lambda>b. (md_id b, totalBalance b)) bs)"

text \<open>
  The observations in double precision. \<open>exact_sum\<close> is the sum of a list of values as
  real numbers, without rounding: it is a number when every value is present and finite,
  and \<open>NotANumber\<close> otherwise. \<open>js_total64\<close> is the sum as JavaScript adds the values,
  from the left and starting at 0. \<open>is_double\<close> tells the values \<open>Finite n\<close> that are
  doubles: those with at most 53 significant bits, below the overflow threshold.
\<close>

definition valid_input64 ::
  "'id list \<Rightarrow> 'id expense64 list \<Rightarrow> 'id settlement64 list \<Rightarrow> bool" where
  "valid_input64 ids expenses settlements \<longleftrightarrow>
     (\<forall>e\<in>set expenses. paidByUserId64 e \<in> set ids
        \<and> (\<forall>sp\<in>set (splits64 e). userId64 sp \<in> set ids))
     \<and> (\<forall>s\<in>set settlements. s_paidByUserId64 s \<in> set ids \<and> s_receivedByUserId64 s \<in> set ids)"

fun plus_exact :: "float64 \<Rightarrow> float64 \<Rightarrow> float64" where
  "plus_exact (Finite x) (Finite y) = Finite (x + y)"
| "plus_exact _ _ = NotANumber"

fun exact_sum :: "float64 option list \<Rightarrow> float64" where
  "exact_sum [] = Finite 0"
| "exact_sum (None # vs) = NotANumber"
| "exact_sum (Some v # vs) = plus_exact v (exact_sum vs)"

fun js_plus64 :: "float64 \<Rightarrow> float64 option \<Rightarrow> float64" where
  "js_plus64 s (Some v) = add64 s v"
| "js_plus64 s None = NotANumber"

definition js_total64 :: "float64 option list \<Rightarrow> float64" where
  "js_total64 vs = fold (\<lambda>v s. js_plus64 s v) vs (Finite 0)"

definition reported_totals64 :: "'id balance64 list \<Rightarrow> ('id \<times> float64 option) list" where
  "reported_totals64 bs = remdups (map (\<lambda>b. (md_id b, totalBalance64 b)) bs)"

fun is_double :: "float64 \<Rightarrow> bool" where
  "is_double (Finite n) = (round64 n = Finite n)"
| "is_double _ = True"

text \<open>
  Inputs with whole-number amounts, as inputs in double precision, and the sum of the
  absolute values of all the amounts of an input.
\<close>

definition split64_of :: "'id expense_split \<Rightarrow> 'id expense_split64" where
  "split64_of sp = \<lparr>userId64 = userId sp, amount64 = whole64 (amount sp), paid64 = paid sp\<rparr>"

definition expense64_of :: "'id expense \<Rightarrow> 'id expense64" where
  "expense64_of e = \<lparr>groupId64 = groupId e, paidByUserId64 = paidByUserId e,
     splits64 = map split64_of (splits e)\<rparr>"

definition settlement64_of :: "'id settlement \<Rightarrow> 'id settlement64" where
  "settlement64_of s = \<lparr>s_groupId64 = s_groupId s, s_paidByUserId64 = s_paidByUserId s,
     s_receivedByUserId64 = s_receivedByUserId s, s_amount64 = whole64 (s_amount s)\<rparr>"

definition expense_amount :: "'id expense \<Rightarrow> int" where
  "expense_amount e = sum_list (map (\<lambda>sp. \<bar>amount sp\<bar>) (splits e))"

definition total_amount :: "'id expense list \<Rightarrow> 'id settlement list \<Rightarrow> int" where
  "total_amount expenses settlements =
     sum_list (map expense_amount expenses) + sum_list (map (\<lambda>s. \<bar>s_amount s\<bar>) settlements)"

subsection \<open>Notions of the proofs\<close>

text \<open>
  \<open>offdiag a r\<close> is the row \<open>r\<close> of the member \<open>a\<close> without the key \<open>a\<close> itself.
  \<open>norm_pair\<close> is what one visit of the netting pass makes of the two directions of a
  pair. \<open>sound\<close> is the invariant of a run on a valid input, \<open>tidy\<close> the part of it that
  every run keeps, \<open>diag_nan\<close> says that a cell \<open>ledger[a][a]\<close> holds nothing but
  \<open>NaN\<close>, \<open>no_self\<close> that there is no such cell, and two states are \<open>alike\<close> when they
  differ in such cells only.
\<close>

definition offdiag :: "'id \<Rightarrow> 'id row \<Rightarrow> 'id row" where
  "offdiag a r = filter (\<lambda>p. fst p \<noteq> a) r"

definition net_fwd :: "jsnum \<Rightarrow> jsnum" where
  "net_fwd d = (if js_gt0 d then d else Num 0)"

definition net_bwd :: "jsnum \<Rightarrow> jsnum" where
  "net_bwd d = (if js_lt0 d then js_neg d else Num 0)"

definition pair_state :: "('id \<rightharpoonup> 'id row) \<Rightarrow> 'id \<Rightarrow> 'id \<Rightarrow> jsnum option \<times> jsnum option" where
  "pair_state L a b = (cell L a b, cell L b a)"

definition norm_pair :: "jsnum option \<times> jsnum option \<Rightarrow> jsnum option \<times> jsnum option" where
  "norm_pair p = (Some (net_fwd (js_diff (fst p) (snd p))), Some (net_bwd (js_diff (fst p) (snd p))))"

definition net_total :: "'id acc \<Rightarrow> 'id \<Rightarrow> int" where
  "net_total st m = (case totals st m of Some (Num x) \<Rightarrow> x | _ \<Rightarrow> 0)"

definition sound :: "'id list \<Rightarrow> 'id acc \<Rightarrow> bool" where
  "sound ids st \<longleftrightarrow>
     set ids \<subseteq> dom (ledger st)
     \<and> (\<forall>m\<in>set ids. \<exists>x. totals st m = Some (Num x))
     \<and> (\<forall>a\<in>set ids. \<forall>b\<in>set ids. a \<noteq> b \<longrightarrow> (\<exists>x. cell (ledger st) a b = Some (Num x)))
     \<and> (\<Sum>m\<in>set ids. net_total st m) = 0"

definition tidy :: "'id list \<Rightarrow> 'id acc \<Rightarrow> bool" where
  "tidy ids st \<longleftrightarrow>
     set ids \<subseteq> dom (ledger st)
     \<and> set ids \<subseteq> dom (totals st)
     \<and> (\<forall>a\<in>set ids. \<forall>b\<in>set ids. a \<noteq> b \<longrightarrow> (\<exists>x. cell (ledger st) a b = Some (Num x)))"

definition diag_nan :: "'id acc \<Rightarrow> bool" where
  "diag_nan st \<longleftrightarrow> (\<forall>a r v. ledger st a = Some r \<longrightarrow> (a, v) \<in> set r \<longrightarrow> v = NaN)"

definition alike :: "'id acc \<Rightarrow> 'id acc \<Rightarrow> bool" where
  "alike st st' \<longleftrightarrow>
     totals st = totals st'
     \<and> (\<forall>a. rel_option (\<lambda>r r'. offdiag a r = offdiag a r') (ledger st a) (ledger st' a))
     \<and> diag_nan st \<and> diag_nan st'"

definition no_self :: "'id acc \<Rightarrow> bool" where
  "no_self st \<longleftrightarrow> (\<forall>m. cell (ledger st) m m = None)"

text \<open>
  For the double precision: \<open>round_int\<close> rounds an integer to 53 significant bits;
  \<open>to64\<close>, \<open>row64_of\<close>, \<open>acc64_of\<close> and \<open>balance64_of\<close> read a number, a row, a state
  and a balance of the exact arithmetic as one of the double precision; \<open>within s\<close> bounds
  by \<open>s\<close> the totals, the cells, the two cells of a pair together and the sum of the totals
  of any finite set of members.
\<close>

definition round_int :: "int \<Rightarrow> int" where
  "round_int n = sgn n * nearest_even \<bar>n\<bar> (bits \<bar>n\<bar> - 53)"

fun to64 :: "jsnum \<Rightarrow> float64" where
  "to64 (Num n) = whole64 n"
| "to64 NaN = NotANumber"

definition row64_of :: "'id row \<Rightarrow> 'id row64" where
  "row64_of r = map (\<lambda>(k, v). (k, to64 v)) r"

definition acc64_of :: "'id acc \<Rightarrow> 'id acc64" where
  "acc64_of st = \<lparr>totals64 = map_option to64 \<circ> totals st,
                   ledger64 = map_option row64_of \<circ> ledger st\<rparr>"

definition balance64_of :: "'id balance \<Rightarrow> 'id balance64" where
  "balance64_of b =
     \<lparr>md_id = md_id b, md_name = md_name b, md_imageUrl = md_imageUrl b, md_role = md_role b,
      totalBalance64 = map_option to64 (totalBalance b),
      owes64 = row64_of (owes b), owedBy64 = row64_of (owedBy b)\<rparr>"

definition within :: "int \<Rightarrow> 'id acc \<Rightarrow> bool" where
  "within s st \<longleftrightarrow>
     0 \<le> s
     \<and> (\<forall>m x. totals st m = Some (Num x) \<longrightarrow> \<bar>x\<bar> \<le> s)
     \<and> (\<forall>a b x. cell (ledger st) a b = Some (Num x) \<longrightarrow> \<bar>x\<bar> \<le> s)
     \<and> (\<forall>a b x y. a \<noteq> b \<longrightarrow> cell (ledger st) a b = Some (Num x)
            \<longrightarrow> cell (ledger st) b a = Some (Num y) \<longrightarrow> \<bar>x\<bar> + \<bar>y\<bar> \<le> s)
     \<and> (\<forall>S. finite S \<longrightarrow> \<bar>\<Sum>m\<in>S. net_total st m\<bar> \<le> s)"

subsection \<open>Example data\<close>

text \<open>
  A group G of Asha (A), Bo (B) and Cy (C); one expense of 30 paid by A and split
  equally; a settlement of 15 from B to A, which overpays the 10 that B owes; a settlement
  of B to B; an expense \<open>ex_paid\<close> of A whose split of C is already paid.
  \<open>ex_accrued\<close>, \<open>ex_before\<close> and \<open>ex_after\<close> are the states after the
  expense, after the settlement and after the netting pass. In the database \<open>ex_db\<close> the
  group has the members A and B only, while its expense still carries the split of C.
\<close>

definition ex_members :: "string memberDetail list" where
  "ex_members =
     [\<lparr>md_id = ''A'', md_name = ''Asha'', md_imageUrl = '''', md_role = ''admin''\<rparr>,
      \<lparr>md_id = ''B'', md_name = ''Bo'', md_imageUrl = '''', md_role = ''member''\<rparr>,
      \<lparr>md_id = ''C'', md_name = ''Cy'', md_imageUrl = '''', md_role = ''member''\<rparr>]"

definition ex_expense :: "string expense" where
  "ex_expense = \<lparr>groupId = ''G'', paidByUserId = ''A'',
     splits = [\<lparr>userId = ''A'', amount = 10, paid = False\<rparr>,
               \<lparr>userId = ''B'', amount = 10, paid = False\<rparr>,
               \<lparr>userId = ''C'', amount = 10, paid = False\<rparr>]\<rparr>"

definition ex_paid :: "string expense" where
  "ex_paid = \<lparr>groupId = ''G'', paidByUserId = ''A'',
     splits = [\<lparr>userId = ''B'', amount = 10, paid = False\<rparr>,
               \<lparr>userId = ''C'', amount = 10, paid = True\<rparr>]\<rparr>"

definition ex_settlement :: "string settlement" where
  "ex_settlement = \<lparr>s_groupId = ''G'', s_paidByUserId = ''B'', s_receivedByUserId = ''A'',
     s_amount = 15\<rparr>"

definition ex_accrued :: "string acc" where
  "ex_accrued = \<lparr>totals = [''A'' \<mapsto> Num 20, ''B'' \<mapsto> Num (- 10), ''C'' \<mapsto> Num (- 10)],
     ledger = [''A'' \<mapsto> [(''B'', Num 0), (''C'', Num 0)],
               ''B'' \<mapsto> [(''A'', Num 10), (''C'', Num 0)],
               ''C'' \<mapsto> [(''A'', Num 10), (''B'', Num 0)]]\<rparr>"

definition ex_before :: "string acc" where
  "ex_before = \<lparr>totals = [''A'' \<mapsto> Num 5, ''B'' \<mapsto> Num 5, ''C'' \<mapsto> Num (- 10)],
     ledger = [''A'' \<mapsto> [(''B'', Num 0), (''C'', Num 0)],
               ''B'' \<mapsto> [(''A'', Num (- 5)), (''C'', Num 0)],
               ''C'' \<mapsto> [(''A'', Num 10), (''B'', Num 0)]]\<rparr>"

definition ex_after :: "string acc" where
  "ex_after = \<lparr>totals = [''A'' \<mapsto> Num 5, ''B'' \<mapsto> Num 5, ''C'' \<mapsto> Num (- 10)],
     ledger = [''A'' \<mapsto> [(''B'', Num 5), (''C'', Num 0)],
               ''B'' \<mapsto> [(''A'', Num 0), (''C'', Num 0)],
               ''C'' \<mapsto> [(''A'', Num 10), (''B'', Num 0)]]\<rparr>"

definition ex_self :: "string settlement" where
  "ex_self = \<lparr>s_groupId = ''G'', s_paidByUserId = ''B'', s_receivedByUserId = ''B'',
     s_amount = 7\<rparr>"

definition ex_group :: "string group_doc" where
  "ex_group = \<lparr>g_name = ''Flat'', g_description = ''Rent and food'',
                 members = [\<lparr>m_userId = ''A'', m_role = ''admin''\<rparr>,
                            \<lparr>m_userId = ''B'', m_role = ''member''\<rparr>]\<rparr>"

definition ex_db :: "string database" where
  "ex_db = \<lparr>db_groups = [''G'' \<mapsto> ex_group],
            db_users = [''A'' \<mapsto> \<lparr>u_name = ''Asha'', u_imageUrl = ''''\<rparr>,
                        ''B'' \<mapsto> \<lparr>u_name = ''Bo'', u_imageUrl = ''''\<rparr>,
                        ''C'' \<mapsto> \<lparr>u_name = ''Cy'', u_imageUrl = ''''\<rparr>],
            db_expenses = [ex_expense],
            db_settlements = []\<rparr>"

text \<open>
  Data in double precision. \<open>tenth\<close> and \<open>fifth\<close> are the doubles nearest to 0.1 and
  0.2, the values of the literals \<open>0.1\<close> and \<open>0.2\<close>: \<open>7205759403792794 * 2^-56\<close> and
  \<open>7205759403792794 * 2^-55\<close>, both written with the exponent 56. In \<open>cx_large\<close> A pays
  and B owes \<open>2^53\<close>, C owes 1; in \<open>cx_small\<close> B owes 0.1 and C owes 0.2;
  \<open>cx_large_before\<close> and \<open>cx_small_before\<close> are the states before the netting pass. In
  \<open>cx_one\<close> and \<open>cx_tenth\<close> A pays and B owes 1, or 0.1; \<open>cx_self_large\<close> and
  \<open>cx_self_small\<close> are settlements of A with themselves, of \<open>2^53\<close> and of 0.2.
\<close>

definition tenth :: float64 where
  "tenth = dyadic 7205759403792794 56"

definition fifth :: float64 where
  "fifth = dyadic 14411518807585588 56"

definition cx_large :: "string expense64" where
  "cx_large = \<lparr>groupId64 = ''G'', paidByUserId64 = ''A'',
     splits64 = [\<lparr>userId64 = ''B'', amount64 = whole64 (2 ^ 53), paid64 = False\<rparr>,
                 \<lparr>userId64 = ''C'', amount64 = whole64 1, paid64 = False\<rparr>]\<rparr>"

definition cx_large_before :: "string acc64" where
  "cx_large_before =
     \<lparr>totals64 = [''A'' \<mapsto> whole64 (2 ^ 53), ''B'' \<mapsto> whole64 (- (2 ^ 53)),
                  ''C'' \<mapsto> whole64 (- 1)],
      ledger64 = [''A'' \<mapsto> [(''B'', Finite 0), (''C'', Finite 0)],
                  ''B'' \<mapsto> [(''A'', whole64 (2 ^ 53)), (''C'', Finite 0)],
                  ''C'' \<mapsto> [(''A'', whole64 1), (''B'', Finite 0)]]\<rparr>"

definition cx_small :: "string expense64" where
  "cx_small = \<lparr>groupId64 = ''G'', paidByUserId64 = ''A'',
     splits64 = [\<lparr>userId64 = ''B'', amount64 = tenth, paid64 = False\<rparr>,
                 \<lparr>userId64 = ''C'', amount64 = fifth, paid64 = False\<rparr>]\<rparr>"

definition cx_small_before :: "string acc64" where
  "cx_small_before =
     \<lparr>totals64 = [''A'' \<mapsto> dyadic 21617278211378384 56, ''B'' \<mapsto> neg64 tenth,
                  ''C'' \<mapsto> neg64 fifth],
      ledger64 = [''A'' \<mapsto> [(''B'', Finite 0), (''C'', Finite 0)],
                  ''B'' \<mapsto> [(''A'', tenth), (''C'', Finite 0)],
                  ''C'' \<mapsto> [(''A'', fifth), (''B'', Finite 0)]]\<rparr>"

definition cx_one :: "string expense64" where
  "cx_one = \<lparr>groupId64 = ''G'', paidByUserId64 = ''A'',
     splits64 = [\<lparr>userId64 = ''B'', amount64 = whole64 1, paid64 = False\<rparr>]\<rparr>"

definition cx_self_large :: "string settlement64" where
  "cx_self_large = \<lparr>s_groupId64 = ''G'', s_paidByUserId64 = ''A'', s_receivedByUserId64 = ''A'',
     s_amount64 = whole64 (2 ^ 53)\<rparr>"

definition cx_tenth :: "string expense64" where
  "cx_tenth = \<lparr>groupId64 = ''G'', paidByUserId64 = ''A'',
     splits64 = [\<lparr>userId64 = ''B'', amount64 = tenth, paid64 = False\<rparr>]\<rparr>"

definition cx_self_small :: "string settlement64" where
  "cx_self_small = \<lparr>s_groupId64 = ''G'', s_paidByUserId64 = ''A'', s_receivedByUserId64 = ''A'',
     s_amount64 = fifth\<rparr>"

section \<open>Lemmas\<close>

subsection \<open>Rows\<close>

lemma map_of_put: "map_of (put k v r) = (map_of r)(k \<mapsto> v)"
  by (induction r) (auto simp: fun_eq_iff)

lemma put_same: "map_of r k = Some v \<Longrightarrow> put k v r = r"
  by (induction r) (auto split: if_splits)

lemma set_put: "set (put k v r) \<subseteq> insert (k, v) (set r)"
  by (induction r) auto

lemma offdiag_put_other: "k \<noteq> a \<Longrightarrow> offdiag a (put k v r) = put k v (offdiag a r)"
  by (induction r) (auto simp: offdiag_def)

lemma offdiag_put_diag: "offdiag a (put a v r) = offdiag a r"
  by (induction r) (auto simp: offdiag_def)

lemma map_of_offdiag: "k \<noteq> a \<Longrightarrow> map_of (offdiag a r) k = map_of r k"
  by (induction r) (auto simp: offdiag_def)

subsection \<open>Loops\<close>

lemma for_of_append:
  "for_of f (xs @ ys) s = (case for_of f xs s of Inl e \<Rightarrow> Inl e | Inr s' \<Rightarrow> for_of f ys s')"
  by (induction xs arbitrary: s) (auto split: sum.splits)

lemma for_of_map: "for_of f (map g xs) s = for_of (\<lambda>s x. f s (g x)) xs s"
  by (induction xs arbitrary: s) (auto split: sum.splits)

lemma for_of_product:
  "for_of (\<lambda>s a. for_of (f a) ys s) xs s
     = for_of (\<lambda>s p. f (fst p) s (snd p)) (List.product xs ys) s"
  by (induction xs arbitrary: s) (auto simp: for_of_append for_of_map split: sum.splits)

lemma for_of_fixed: "(\<And>x. x \<in> set xs \<Longrightarrow> f s x = Inr s) \<Longrightarrow> for_of f xs s = Inr s"
  by (induction xs) auto

lemma for_of_invariant:
  assumes "for_of f xs s = Inr s'" and "P s"
    and "\<And>t x t'. x \<in> set xs \<Longrightarrow> P t \<Longrightarrow> f t x = Inr t' \<Longrightarrow> P t'"
  shows "P s'"
  using assms
proof (induction xs arbitrary: s)
  case Nil
  then show ?case by simp
next
  case (Cons x xs)
  from Cons.prems(1) obtain t where t: "f s x = Inr t" and r: "for_of f xs t = Inr s'"
    by (auto split: sum.splits)
  have "P t" using Cons.prems(2,3) t by auto
  then show ?case using Cons.IH[OF r] Cons.prems(3) by auto
qed

lemma for_of_succeeds:
  assumes "P s"
    and "\<And>t x. x \<in> set xs \<Longrightarrow> P t \<Longrightarrow> \<exists>t'. f t x = Inr t' \<and> P t'"
  shows "\<exists>s'. for_of f xs s = Inr s' \<and> P s'"
  using assms
proof (induction xs arbitrary: s)
  case Nil
  then show ?case by simp
next
  case (Cons x xs)
  from Cons.prems obtain t where t: "f s x = Inr t" "P t" by fastforce
  from Cons.IH[OF t(2)] Cons.prems(2) obtain s' where "for_of f xs t = Inr s'" "P s'"
    by auto
  then show ?case using t by auto
qed

lemma for_of_related:
  assumes "R s t"
    and "\<And>s t x. x \<in> set xs \<Longrightarrow> R s t \<Longrightarrow> rel_sum (=) R (f s x) (f t x)"
  shows "rel_sum (=) R (for_of f xs s) (for_of f xs t)"
  using assms
proof (induction xs arbitrary: s t)
  case Nil
  then show ?case by simp
next
  case (Cons x xs)
  have r: "rel_sum (=) R (f s x) (f t x)" using Cons.prems by auto
  show ?case
  proof (cases "f s x")
    case (Inl e)
    then show ?thesis using r by (cases "f t x") auto
  next
    case (Inr s1)
    then obtain t1 where t1: "f t x = Inr t1" "R s1 t1" using r by (cases "f t x") auto
    then show ?thesis using Inr Cons.IH[of s1 t1] Cons.prems(2) by auto
  qed
qed

subsection \<open>The initial state\<close>

lemma fold_totals:
  "fold (\<lambda>i t. t(i \<mapsto> Num 0)) ids t0 m = (if m \<in> set ids then Some (Num 0) else t0 m)"
  by (induction ids arbitrary: t0) auto

lemma init_totals_apply: "init_totals ids m = (if m \<in> set ids then Some (Num 0) else None)"
  by (simp add: init_totals_def fold_totals)

lemma fold_row:
  "map_of (fold (\<lambda>b r. if a \<noteq> b then put b (Num 0) r else r) ids r0) b
     = (if b \<in> set ids \<and> a \<noteq> b then Some (Num 0) else map_of r0 b)"
  by (induction ids arbitrary: r0) (auto simp: map_of_put)

lemma map_of_init_row:
  "map_of (init_row ids a) b = (if b \<in> set ids \<and> a \<noteq> b then Some (Num 0) else None)"
  by (simp add: init_row_def fold_row)

lemma fold_ledger:
  "fold (\<lambda>a L. L(a \<mapsto> g a)) ids L0 a = (if a \<in> set ids then Some (g a) else L0 a)"
  by (induction ids arbitrary: L0) auto

lemma init_ledger_apply:
  "init_ledger ids a = (if a \<in> set ids then Some (init_row ids a) else None)"
  by (simp add: init_ledger_def fold_ledger)

subsection \<open>Netting one pair\<close>

lemma js_sign_cases: "js_gt0 d \<Longrightarrow> \<not> js_lt0 d"
  by (cases d) auto

lemma canonical_pair_iff:
  "canonical_pair L a b \<longleftrightarrow>
     (\<exists>x y. cell L a b = Some (Num x) \<and> cell L b a = Some (Num y)
        \<and> 0 \<le> x \<and> 0 \<le> y \<and> (x = 0 \<or> y = 0))"
proof (cases "cell L a b")
  case None
  then show ?thesis by (simp add: canonical_pair_def)
next
  case (Some u)
  note u = this
  show ?thesis
  proof (cases u)
    case NaN
    then show ?thesis using u by (simp add: canonical_pair_def)
  next
    case (Num x)
    note x = this
    show ?thesis
    proof (cases "cell L b a")
      case None
      then show ?thesis using u x by (simp add: canonical_pair_def)
    next
      case (Some w)
      then show ?thesis using u x by (cases w) (auto simp: canonical_pair_def)
    qed
  qed
qed

lemma net_pair_skip: "b \<le> a \<Longrightarrow> net_pair a st b = Inr st"
  by (simp add: net_pair_def)

lemma net_pair_totals: "net_pair a st b = Inr st' \<Longrightarrow> totals st' = totals st"
  by (auto simp: net_pair_def Let_def split: if_splits option.splits)

lemma net_pair_dom: "net_pair a st b = Inr st' \<Longrightarrow> dom (ledger st') = dom (ledger st)"
  by (auto simp: net_pair_def Let_def split: if_splits option.splits)

lemma net_pair_defined:
  "a \<in> dom (ledger st) \<Longrightarrow> b \<in> dom (ledger st) \<Longrightarrow> \<exists>st'. net_pair a st b = Inr st'"
  by (auto simp: net_pair_def Let_def split: if_splits option.splits)

lemma net_pair_frame:
  "net_pair a st b = Inr st' \<Longrightarrow> \<not> (x = a \<and> y = b) \<Longrightarrow> \<not> (x = b \<and> y = a)
     \<Longrightarrow> cell (ledger st') x y = cell (ledger st) x y"
  by (auto simp: net_pair_def Let_def cell_def map_of_put split: if_splits option.splits)

lemma net_pair_result:
  "a < b \<Longrightarrow> net_pair a st b = Inr st'
     \<Longrightarrow> pair_state (ledger st') a b = norm_pair (pair_state (ledger st) a b)"
  by (auto simp: net_pair_def Let_def cell_def map_of_put pair_state_def norm_pair_def
        net_fwd_def net_bwd_def js_sign_cases split: if_splits option.splits)

lemma norm_pair_idem: "norm_pair (norm_pair p) = norm_pair p"
proof -
  obtain x y where p: "p = (x, y)" by (cases p)
  show ?thesis
  proof (cases "js_diff x y")
    case (Num d)
    then show ?thesis by (simp add: p norm_pair_def net_fwd_def net_bwd_def)
  next
    case NaN
    then show ?thesis by (simp add: p norm_pair_def net_fwd_def net_bwd_def)
  qed
qed

lemma norm_pair_canonical:
  "pair_state L a b = norm_pair p \<Longrightarrow> canonical_pair L a b"
  by (cases "js_diff (fst p) (snd p)")
     (auto simp: canonical_pair_iff norm_pair_def pair_state_def net_fwd_def net_bwd_def)

lemma canonical_pair_sym: "canonical_pair L a b = canonical_pair L b a"
  by (auto simp: canonical_pair_iff)

lemma net_pair_same:
  assumes "canonical_pair (ledger st) a b"
  shows "net_pair a st b = Inr st"
proof (cases "b \<le> a")
  case True
  then show ?thesis by (simp add: net_pair_skip)
next
  case False
  from assms obtain ra rb x y where
    ra: "ledger st a = Some ra" "map_of ra b = Some (Num x)" and
    rb: "ledger st b = Some rb" "map_of rb a = Some (Num y)" and
    xy: "0 \<le> x" "0 \<le> y" "x = 0 \<or> y = 0"
    by (auto simp: canonical_pair_iff cell_def split: option.splits)
  have upd: "(ledger st)(a \<mapsto> ra, b \<mapsto> rb) = ledger st"
    "(ledger st)(b \<mapsto> rb, a \<mapsto> ra) = ledger st"
    using ra(1) rb(1) by (auto simp: fun_eq_iff)
  show ?thesis
    using False ra rb xy upd
    by (auto simp: net_pair_def Let_def put_same)
qed

subsection \<open>The netting pass\<close>

lemma net_off_flat:
  "net_off ids st = for_of (\<lambda>s p. net_pair (fst p) s (snd p)) (List.product ids ids) st"
  by (simp add: net_off_def for_of_product)

lemma net_pair_other_pair:
  assumes "net_pair c st d = Inr st'" and "a < b" and "(c, d) \<noteq> (a, b)"
  shows "pair_state (ledger st') a b = pair_state (ledger st) a b"
proof (cases "d \<le> c")
  case True
  then show ?thesis using assms(1) by (simp add: net_pair_skip)
next
  case False
  then have "\<not> (a = c \<and> b = d)" "\<not> (a = d \<and> b = c)" "\<not> (b = c \<and> a = d)" "\<not> (b = d \<and> a = c)"
    using assms(2,3) by auto
  then show ?thesis
    using net_pair_frame[OF assms(1)] by (simp add: pair_state_def)
qed

lemma net_pair_diag:
  assumes "net_pair c st d = Inr st'"
  shows "cell (ledger st') a a = cell (ledger st) a a"
proof (cases "d \<le> c")
  case True
  then show ?thesis using assms by (simp add: net_pair_skip)
next
  case False
  then have "\<not> (a = c \<and> a = d)" "\<not> (a = d \<and> a = c)" by auto
  then show ?thesis using net_pair_frame[OF assms] by simp
qed

lemma visits_totals:
  assumes "for_of (\<lambda>s p. net_pair (fst p) s (snd p)) ps st = Inr st'"
  shows "totals st' = totals st"
proof (rule for_of_invariant[OF assms, where P = "\<lambda>t. totals t = totals st"])
  show "totals st = totals st" by simp
next
  fix t x t'
  assume "totals t = totals st" "net_pair (fst x) t (snd x) = Inr t'"
  then show "totals t' = totals st" using net_pair_totals by fastforce
qed

lemma visits_dom:
  assumes "for_of (\<lambda>s p. net_pair (fst p) s (snd p)) ps st = Inr st'"
  shows "dom (ledger st') = dom (ledger st)"
proof (rule for_of_invariant[OF assms, where P = "\<lambda>t. dom (ledger t) = dom (ledger st)"])
  show "dom (ledger st) = dom (ledger st)" by simp
next
  fix t x t'
  assume "dom (ledger t) = dom (ledger st)" "net_pair (fst x) t (snd x) = Inr t'"
  then show "dom (ledger t') = dom (ledger st)" using net_pair_dom by fastforce
qed

lemma visits_diag:
  assumes "for_of (\<lambda>s p. net_pair (fst p) s (snd p)) ps st = Inr st'"
  shows "cell (ledger st') a a = cell (ledger st) a a"
proof (rule for_of_invariant[OF assms,
      where P = "\<lambda>t. cell (ledger t) a a = cell (ledger st) a a"])
  show "cell (ledger st) a a = cell (ledger st) a a" by simp
next
  fix t x t'
  assume "cell (ledger t) a a = cell (ledger st) a a" "net_pair (fst x) t (snd x) = Inr t'"
  then show "cell (ledger t') a a = cell (ledger st) a a" using net_pair_diag by fastforce
qed

lemma visits_pair:
  assumes "for_of (\<lambda>s p. net_pair (fst p) s (snd p)) ps st = Inr st'" and "a < b"
  shows "pair_state (ledger st') a b =
           (if (a, b) \<in> set ps then norm_pair (pair_state (ledger st) a b)
            else pair_state (ledger st) a b)"
  using assms(1)
proof (induction ps arbitrary: st)
  case Nil
  then show ?case by simp
next
  case (Cons p ps)
  from Cons.prems obtain st1 where
    step: "net_pair (fst p) st (snd p) = Inr st1" and
    rest: "for_of (\<lambda>s p. net_pair (fst p) s (snd p)) ps st1 = Inr st'"
    by (auto split: sum.splits)
  note IH = Cons.IH[OF rest]
  show ?case
  proof (cases "p = (a, b)")
    case True
    then have "pair_state (ledger st1) a b = norm_pair (pair_state (ledger st) a b)"
      using step assms(2) net_pair_result[of a b st st1] by simp
    then show ?thesis using IH True by (simp add: norm_pair_idem)
  next
    case False
    then have "(fst p, snd p) \<noteq> (a, b)" by (cases p) auto
    then have "pair_state (ledger st1) a b = pair_state (ledger st) a b"
      using net_pair_other_pair[OF step assms(2)] by simp
    then show ?thesis using IH False by auto
  qed
qed

lemma net_off_totals: "net_off ids st = Inr st' \<Longrightarrow> totals st' = totals st"
  by (simp add: net_off_flat visits_totals)

lemma net_off_dom: "net_off ids st = Inr st' \<Longrightarrow> dom (ledger st') = dom (ledger st)"
  by (simp add: net_off_flat visits_dom)

lemma net_off_diag: "net_off ids st = Inr st' \<Longrightarrow> cell (ledger st') a a = cell (ledger st) a a"
  by (simp add: net_off_flat visits_diag)

lemma net_off_pair:
  assumes "net_off ids st = Inr st'" and "a < b"
  shows "pair_state (ledger st') a b =
           (if a \<in> set ids \<and> b \<in> set ids then norm_pair (pair_state (ledger st) a b)
            else pair_state (ledger st) a b)"
  using visits_pair[OF assms(1)[unfolded net_off_flat] assms(2)] by simp

lemma net_off_succeeds:
  fixes ids :: "'a::linorder list"
  assumes "set ids \<subseteq> dom (ledger st)"
  shows "\<exists>st'. net_off ids st = Inr st'"
proof -
  have "\<exists>s'. for_of (\<lambda>s p. net_pair (fst p) s (snd p)) (List.product ids ids) st = Inr s'
          \<and> set ids \<subseteq> dom (ledger s')"
  proof (rule for_of_succeeds[where P = "\<lambda>t. set ids \<subseteq> dom (ledger t)"])
    show "set ids \<subseteq> dom (ledger st)" by (rule assms)
  next
    fix t :: "'a acc" and p
    assume p: "p \<in> set (List.product ids ids)" and t: "set ids \<subseteq> dom (ledger t)"
    then have "fst p \<in> dom (ledger t)" "snd p \<in> dom (ledger t)" by auto
    then obtain t' where t': "net_pair (fst p) t (snd p) = Inr t'"
      using net_pair_defined by blast
    then show "\<exists>t'. net_pair (fst p) t (snd p) = Inr t' \<and> set ids \<subseteq> dom (ledger t')"
      using t net_pair_dom[OF t'] by auto
  qed
  then show ?thesis by (auto simp: net_off_flat)
qed

lemma net_off_canonical:
  assumes "net_off ids st = Inr st'"
  shows "canonical ids (ledger st')"
  unfolding canonical_def
proof (intro ballI impI)
  fix a b
  assume ab: "a \<in> set ids" "b \<in> set ids" "a \<noteq> b"
  show "canonical_pair (ledger st') a b"
  proof (cases "a < b")
    case True
    then show ?thesis
      using net_off_pair[OF assms True] ab
        norm_pair_canonical[of "ledger st'" a b "pair_state (ledger st) a b"] by simp
  next
    case False
    then have "b < a" using ab by auto
    then have "canonical_pair (ledger st') b a"
      using net_off_pair[OF assms, of b a] ab
        norm_pair_canonical[of "ledger st'" b a "pair_state (ledger st) b a"] by simp
    then show ?thesis by (simp add: canonical_pair_sym)
  qed
qed

lemma net_off_idem:
  assumes "canonical ids (ledger st)"
  shows "net_off ids st = Inr st"
  unfolding net_off_def
proof (rule for_of_fixed)
  fix a
  assume a: "a \<in> set ids"
  show "for_of (net_pair a) ids st = Inr st"
  proof (rule for_of_fixed)
    fix b
    assume b: "b \<in> set ids"
    show "net_pair a st b = Inr st"
    proof (cases "a = b")
      case True
      then show ?thesis by (simp add: net_pair_skip)
    next
      case False
      then show ?thesis using assms a b by (simp add: canonical_def net_pair_same)
    qed
  qed
qed

subsection \<open>Runs on valid input\<close>

lemma sum_transfer:
  fixes f g :: "'a \<Rightarrow> int"
  assumes "finite S" and "p \<in> S" and "d \<in> S"
    and "\<And>m. m \<in> S \<Longrightarrow> g m = f m + (if m = p then a else 0) - (if m = d then a else 0)"
  shows "sum g S = sum f S"
proof -
  have "sum g S = (\<Sum>m\<in>S. f m + (if m = p then a else 0) - (if m = d then a else 0))"
    using assms(4) by (intro sum.cong) auto
  also have "\<dots> = sum f S + (\<Sum>m\<in>S. if m = p then a else 0) - (\<Sum>m\<in>S. if m = d then a else 0)"
    by (simp add: sum.distrib sum_subtractf)
  also have "\<dots> = sum f S"
    using assms(1-3) by simp
  finally show ?thesis .
qed

lemma cell_init:
  "cell (ledger (init ids)) a b = (if a \<in> set ids \<and> b \<in> set ids \<and> a \<noteq> b then Some (Num 0) else None)"
  by (simp add: cell_def init_def init_ledger_apply map_of_init_row)

lemma sound_init: "sound ids (init ids)"
  unfolding sound_def
proof (intro conjI)
  show "set ids \<subseteq> dom (ledger (init ids))"
    by (auto simp: init_def init_ledger_apply)
  show "\<forall>m\<in>set ids. \<exists>x. totals (init ids) m = Some (Num x)"
    by (simp add: init_def init_totals_apply)
  show "\<forall>a\<in>set ids. \<forall>b\<in>set ids. a \<noteq> b \<longrightarrow> (\<exists>x. cell (ledger (init ids)) a b = Some (Num x))"
    by (simp add: cell_init)
  show "(\<Sum>m\<in>set ids. net_total (init ids) m) = 0"
    by (simp add: net_total_def init_def init_totals_apply)
qed

lemma apply_split_sound:
  assumes "sound ids st" and "payer \<in> set ids" and "userId sp \<in> set ids"
  shows "\<exists>st'. apply_split payer st sp = Inr st' \<and> sound ids st'"
proof (cases "userId sp = payer \<or> paid sp")
  case True
  then show ?thesis using assms(1) by (simp add: apply_split_def)
next
  case False
  define debtor where "debtor = userId sp"
  define amt where "amt = amount sp"
  have ne: "debtor \<noteq> payer" using False by (simp add: debtor_def)
  have din: "debtor \<in> set ids" using assms(3) by (simp add: debtor_def)
  obtain r where r: "ledger st debtor = Some r" using assms(1) din by (auto simp: sound_def)
  obtain x where x: "totals st payer = Some (Num x)" using assms(1,2) by (auto simp: sound_def)
  obtain y where y: "totals st debtor = Some (Num y)" using assms(1) din by (auto simp: sound_def)
  obtain c where c: "map_of r payer = Some (Num c)"
    using assms(1,2) din ne r by (fastforce simp: sound_def cell_def)
  define st' where "st' = \<lparr>totals = (totals st)(payer \<mapsto> Num (x + amt), debtor \<mapsto> Num (y - amt)),
    ledger = (ledger st)(debtor \<mapsto> put payer (Num (c + amt)) r)\<rparr>"
  have res: "apply_split payer st sp = Inr st'"
    using False r x y c ne
    by (simp add: apply_split_def Let_def st'_def debtor_def[symmetric] amt_def[symmetric])
  have "sound ids st'"
    unfolding sound_def
  proof (intro conjI)
    show "set ids \<subseteq> dom (ledger st')" using assms(1) by (auto simp: sound_def st'_def)
    show "\<forall>m\<in>set ids. \<exists>x. totals st' m = Some (Num x)"
      using assms(1) by (auto simp: sound_def st'_def)
    show "\<forall>a\<in>set ids. \<forall>b\<in>set ids. a \<noteq> b \<longrightarrow> (\<exists>x. cell (ledger st') a b = Some (Num x))"
      using assms(1) r by (auto simp: sound_def st'_def cell_def map_of_put)
    have "(\<Sum>m\<in>set ids. net_total st' m) = (\<Sum>m\<in>set ids. net_total st m)"
    proof (rule sum_transfer[where p = payer and d = debtor and a = amt])
      show "finite (set ids)" by simp
      show "payer \<in> set ids" by (rule assms(2))
      show "debtor \<in> set ids" by (rule din)
      fix m
      show "net_total st' m = net_total st m + (if m = payer then amt else 0) - (if m = debtor then amt else 0)"
        using x y ne by (simp add: net_total_def st'_def)
    qed
    then show "(\<Sum>m\<in>set ids. net_total st' m) = 0" using assms(1) by (simp add: sound_def)
  qed
  then show ?thesis using res by simp
qed

lemma apply_expense_sound:
  assumes "sound ids st" and "paidByUserId e \<in> set ids" and "\<forall>sp\<in>set (splits e). userId sp \<in> set ids"
  shows "\<exists>st'. apply_expense st e = Inr st' \<and> sound ids st'"
  unfolding apply_expense_def
  using assms by (intro for_of_succeeds[where P = "sound ids"]) (auto intro: apply_split_sound)

lemma apply_expenses_sound:
  assumes "sound ids st"
    and "\<forall>e\<in>set expenses. paidByUserId e \<in> set ids \<and> (\<forall>sp\<in>set (splits e). userId sp \<in> set ids)"
  shows "\<exists>st'. apply_expenses st expenses = Inr st' \<and> sound ids st'"
  unfolding apply_expenses_def
  using assms by (intro for_of_succeeds[where P = "sound ids"]) (auto intro: apply_expense_sound)

lemma apply_settlement_sound:
  assumes "sound ids st" and "s_paidByUserId s \<in> set ids" and "s_receivedByUserId s \<in> set ids"
  shows "\<exists>st'. apply_settlement st s = Inr st' \<and> sound ids st'"
proof -
  define p where "p = s_paidByUserId s"
  define q where "q = s_receivedByUserId s"
  define amt where "amt = s_amount s"
  have pin: "p \<in> set ids" and qin: "q \<in> set ids" using assms(2,3) by (simp_all add: p_def q_def)
  obtain r where r: "ledger st p = Some r" using assms(1) pin by (auto simp: sound_def)
  obtain x where x: "totals st p = Some (Num x)" using assms(1) pin by (auto simp: sound_def)
  obtain y where y: "totals st q = Some (Num y)" using assms(1) qin by (auto simp: sound_def)
  define t2 where "t2 = (totals st)(p \<mapsto> Num (x + amt), q \<mapsto> Num ((if q = p then x + amt else y) - amt))"
  define st' where "st' = \<lparr>totals = t2,
    ledger = (ledger st)(p \<mapsto> put q (js_sub (map_of r q) amt) r)\<rparr>"
  have res: "apply_settlement st s = Inr st'"
    using r x y
    by (simp add: apply_settlement_def Let_def st'_def t2_def
        p_def[symmetric] q_def[symmetric] amt_def[symmetric])
  have "sound ids st'"
    unfolding sound_def
  proof (intro conjI)
    show "set ids \<subseteq> dom (ledger st')" using assms(1) by (auto simp: sound_def st'_def)
    show "\<forall>m\<in>set ids. \<exists>x. totals st' m = Some (Num x)"
      using assms(1) by (auto simp: sound_def st'_def t2_def)
    show "\<forall>a\<in>set ids. \<forall>b\<in>set ids. a \<noteq> b \<longrightarrow> (\<exists>x. cell (ledger st') a b = Some (Num x))"
    proof (intro ballI impI)
      fix a b
      assume ab: "a \<in> set ids" "b \<in> set ids" "a \<noteq> b"
      then obtain c where c: "cell (ledger st) a b = Some (Num c)"
        using assms(1) unfolding sound_def by blast
      show "\<exists>x. cell (ledger st') a b = Some (Num x)"
        using c r ab by (auto simp: st'_def cell_def map_of_put)
    qed
    have "(\<Sum>m\<in>set ids. net_total st' m) = (\<Sum>m\<in>set ids. net_total st m)"
    proof (rule sum_transfer[where p = p and d = q and a = amt])
      show "finite (set ids)" by simp
      show "p \<in> set ids" by (rule pin)
      show "q \<in> set ids" by (rule qin)
      fix m
      show "net_total st' m = net_total st m + (if m = p then amt else 0) - (if m = q then amt else 0)"
        using x y by (auto simp: net_total_def st'_def t2_def)
    qed
    then show "(\<Sum>m\<in>set ids. net_total st' m) = 0" using assms(1) by (simp add: sound_def)
  qed
  then show ?thesis using res by simp
qed

lemma apply_settlements_sound:
  assumes "sound ids st"
    and "\<forall>s\<in>set settlements. s_paidByUserId s \<in> set ids \<and> s_receivedByUserId s \<in> set ids"
  shows "\<exists>st'. apply_settlements st settlements = Inr st' \<and> sound ids st'"
  unfolding apply_settlements_def
  using assms by (intro for_of_succeeds[where P = "sound ids"]) (auto intro: apply_settlement_sound)

lemma before_netting_sound:
  assumes "valid_input ids expenses settlements"
  shows "\<exists>st. before_netting ids expenses settlements = Inr st \<and> sound ids st"
proof -
  obtain st1 where st1: "apply_expenses (init ids) expenses = Inr st1" "sound ids st1"
    using apply_expenses_sound[OF sound_init, of expenses ids] assms
    by (auto simp: valid_input_def)
  obtain st2 where "apply_settlements st1 settlements = Inr st2" "sound ids st2"
    using apply_settlements_sound[OF st1(2), of settlements] assms
    by (auto simp: valid_input_def)
  then show ?thesis using st1 by (simp add: before_netting_def)
qed

subsection \<open>Sums and shaping\<close>

lemma sound_tidy: "sound ids st \<Longrightarrow> tidy ids st"
  by (auto simp: sound_def tidy_def)

lemma remdups_map_inj:
  "inj_on f (set xs) \<Longrightarrow> remdups (map f xs) = map f (remdups xs)"
  by (induction xs) (auto simp: inj_on_def)

lemma fold_js_plus:
  assumes "\<forall>m\<in>set xs. \<exists>x. t m = Some (Num x)"
  shows "fold (\<lambda>v s. js_plus s v) (map t xs) (Num a)
           = Num (a + sum_list (map (\<lambda>m. case t m of Some (Num x) \<Rightarrow> x | _ \<Rightarrow> 0) xs))"
  using assms
proof (induction xs arbitrary: a)
  case Nil
  then show ?case by simp
next
  case (Cons m xs)
  then obtain x where x: "t m = Some (Num x)" by auto
  show ?case using Cons x by (simp add: add.assoc)
qed

lemma js_total_sound:
  assumes "sound ids st"
  shows "js_total (map (totals st) (remdups ids)) = Num 0"
proof -
  have num: "\<forall>m\<in>set (remdups ids). \<exists>x. totals st m = Some (Num x)"
    using assms by (simp add: sound_def)
  have "js_total (map (totals st) (remdups ids))
          = Num (sum_list (map (net_total st) (remdups ids)))"
    unfolding js_total_def net_total_def using fold_js_plus[OF num, of 0] by simp
  also have "sum_list (map (net_total st) (remdups ids)) = (\<Sum>m\<in>set ids. net_total st m)"
    using sum_list_distinct_conv_sum_set[of "remdups ids" "net_total st"] by simp
  finally show ?thesis using assms by (simp add: sound_def)
qed

lemma owedBy_of_defined: "set xs \<subseteq> dom L \<Longrightarrow> \<exists>ob. owedBy_of L m xs = Inr ob"
proof (induction xs)
  case Nil
  then show ?case by simp
next
  case (Cons x xs)
  then obtain r ob where "L x = Some r" "owedBy_of L m xs = Inr ob" by auto
  then show ?case by (auto split: option.splits)
qed

lemma shape_member_defined:
  assumes "set ids \<subseteq> dom (ledger st)" and "md_id m \<in> set ids"
  shows "\<exists>b. shape_member ids st m = Inr b"
proof -
  obtain r where "ledger st (md_id m) = Some r" using assms by auto
  moreover obtain ob where "owedBy_of (ledger st) (md_id m) ids = Inr ob"
    using owedBy_of_defined[OF assms(1)] by blast
  ultimately show ?thesis by (simp add: shape_member_def)
qed

lemma map_err_defined:
  "(\<And>x. x \<in> set xs \<Longrightarrow> \<exists>y. f x = Inr y) \<Longrightarrow> \<exists>ys. map_err f xs = Inr ys"
proof (induction xs)
  case Nil
  then show ?case by simp
next
  case (Cons x xs)
  then obtain y ys where "f x = Inr y" "map_err f xs = Inr ys" by fastforce
  then show ?case by simp
qed

lemma shape_balances_defined:
  assumes "set ids \<subseteq> dom (ledger st)" and "md_id ` set mds \<subseteq> set ids"
  shows "\<exists>bs. shape_balances ids st mds = Inr bs"
  unfolding shape_balances_def
  using assms by (intro map_err_defined shape_member_defined) auto

lemma shape_member_total:
  "shape_member ids st m = Inr b \<Longrightarrow> md_id b = md_id m \<and> totalBalance b = totals st (md_id m)"
  by (auto simp: shape_member_def split: option.splits sum.splits)

lemma shape_balances_totals:
  "shape_balances ids st mds = Inr bs
     \<Longrightarrow> map (\<lambda>b. (md_id b, totalBalance b)) bs = map (\<lambda>m. (md_id m, totals st (md_id m))) mds"
  unfolding shape_balances_def
proof (induction mds arbitrary: bs)
  case Nil
  then show ?case by simp
next
  case (Cons m mds)
  from Cons.prems obtain b bs' where
    b: "shape_member ids st m = Inr b" and bs': "map_err (shape_member ids st) mds = Inr bs'"
    and eq: "bs = b # bs'"
    by (auto split: sum.splits)
  show ?case using Cons.IH[OF bs'] shape_member_total[OF b] eq by simp
qed

lemma reported_totals_shape:
  assumes "shape_balances ids st mds = Inr bs"
  shows "map snd (reported_totals bs) = map (totals st) (remdups (map md_id mds))"
proof -
  have "map (\<lambda>b. (md_id b, totalBalance b)) bs = map (\<lambda>i. (i, totals st i)) (map md_id mds)"
    using shape_balances_totals[OF assms] by (simp add: comp_def)
  moreover have "inj_on (\<lambda>i. (i, totals st i)) (set (map md_id mds))"
    by (simp add: inj_on_def)
  ultimately have "reported_totals bs = map (\<lambda>i. (i, totals st i)) (remdups (map md_id mds))"
    unfolding reported_totals_def by (simp only: remdups_map_inj)
  then show ?thesis by (simp add: comp_def)
qed

subsection \<open>Netting numbers\<close>

lemma net_off_numeric:
  assumes "net_off ids st = Inr st'" and "a \<in> set ids" and "b \<in> set ids" and "a \<noteq> b"
    and "cell (ledger st) a b = Some (Num x)" and "cell (ledger st) b a = Some (Num y)"
  shows "cell (ledger st') a b = Some (Num (max 0 (x - y)))
       \<and> cell (ledger st') b a = Some (Num (max 0 (y - x)))"
proof (cases "a < b")
  case True
  have "pair_state (ledger st') a b = norm_pair (Some (Num x), Some (Num y))"
    using net_off_pair[OF assms(1) True] assms(2,3,5,6) by (simp add: pair_state_def)
  then show ?thesis
    by (auto simp: pair_state_def norm_pair_def net_fwd_def net_bwd_def)
next
  case False
  then have "b < a" using assms(4) by auto
  then have "pair_state (ledger st') b a = norm_pair (Some (Num y), Some (Num x))"
    using net_off_pair[OF assms(1), of b a] assms(2,3,5,6) by (simp add: pair_state_def)
  then show ?thesis
    by (auto simp: pair_state_def norm_pair_def net_fwd_def net_bwd_def)
qed

lemma sound_net_off:
  assumes "net_off ids st = Inr st'" and "sound ids st"
  shows "sound ids st'"
proof -
  have t: "totals st' = totals st" by (rule net_off_totals[OF assms(1)])
  have d: "dom (ledger st') = dom (ledger st)" by (rule net_off_dom[OF assms(1)])
  have c: "\<forall>a\<in>set ids. \<forall>b\<in>set ids. a \<noteq> b \<longrightarrow> (\<exists>x. cell (ledger st') a b = Some (Num x))"
  proof (intro ballI impI)
    fix a b
    assume ab: "a \<in> set ids" "b \<in> set ids" "a \<noteq> b"
    obtain x y where "cell (ledger st) a b = Some (Num x)" "cell (ledger st) b a = Some (Num y)"
      using assms(2) ab unfolding sound_def by metis
    then show "\<exists>x. cell (ledger st') a b = Some (Num x)"
      using net_off_numeric[OF assms(1) ab] by blast
  qed
  show ?thesis using assms(2) t d c by (simp add: sound_def net_total_def)
qed

subsection \<open>The example, step by step\<close>

lemma ex_apply_expenses:
  "apply_expenses (init [''A'', ''B'', ''C'']) [ex_expense] = Inr ex_accrued"
  by (simp add: apply_expenses_def apply_expense_def apply_split_def
      init_def init_totals_def init_ledger_def
      init_row_def ex_expense_def ex_accrued_def Let_def fun_eq_iff)


lemma ex_net_off: "net_off [''A'', ''B'', ''C''] ex_before = Inr ex_after"
  by (simp add: net_off_def net_pair_def ex_before_def ex_after_def Let_def fun_eq_iff)

lemma ex_valid: "valid_input (map md_id ex_members) [ex_expense] [ex_settlement]"
  by (simp add: valid_input_def ex_members_def ex_expense_def ex_settlement_def)

subsection \<open>What every run keeps\<close>

lemma tidy_init: "tidy ids (init ids)"
  using sound_init by (rule sound_tidy)

lemma apply_split_totals_dom:
  "apply_split payer st sp = Inr st' \<Longrightarrow> dom (totals st) \<subseteq> dom (totals st')"
  by (auto simp: apply_split_def Let_def split: option.splits if_splits)

lemma apply_settlement_totals_dom:
  "apply_settlement st s = Inr st' \<Longrightarrow> dom (totals st) \<subseteq> dom (totals st')"
  by (auto simp: apply_settlement_def Let_def split: option.splits if_splits)

lemma apply_split_tidy:
  assumes "tidy ids st" and "apply_split payer st sp = Inr st'"
  shows "tidy ids st'"
proof (cases "userId sp = payer \<or> paid sp")
  case True
  then show ?thesis using assms by (simp add: apply_split_def)
next
  case False
  then obtain r where r: "ledger st (userId sp) = Some r"
    and L: "ledger st' = (ledger st)(userId sp \<mapsto>
              put payer (js_add (map_of r payer) (amount sp)) r)"
    using assms(2) by (auto simp: apply_split_def Let_def split: option.splits)
  note T = apply_split_totals_dom[OF assms(2)]
  show ?thesis
    unfolding tidy_def
  proof (intro conjI ballI impI)
    show "set ids \<subseteq> dom (ledger st')" using assms(1) L by (auto simp: tidy_def)
  next
    show "set ids \<subseteq> dom (totals st')" using assms(1) T unfolding tidy_def by blast
  next
    fix a b
    assume ab: "a \<in> set ids" "b \<in> set ids" "a \<noteq> b"
    then obtain x where x: "cell (ledger st) a b = Some (Num x)"
      using assms(1) unfolding tidy_def by blast
    show "\<exists>x. cell (ledger st') a b = Some (Num x)"
      using x r L by (auto simp: cell_def map_of_put)
  qed
qed

lemma apply_settlement_tidy:
  assumes "tidy ids st" and "apply_settlement st s = Inr st'"
  shows "tidy ids st'"
proof -
  obtain r where r: "ledger st (s_paidByUserId s) = Some r"
    and L: "ledger st' = (ledger st)(s_paidByUserId s \<mapsto>
              put (s_receivedByUserId s)
                (js_sub (map_of r (s_receivedByUserId s)) (s_amount s)) r)"
    using assms(2) by (auto simp: apply_settlement_def Let_def split: option.splits)
  note T = apply_settlement_totals_dom[OF assms(2)]
  show ?thesis
    unfolding tidy_def
  proof (intro conjI ballI impI)
    show "set ids \<subseteq> dom (ledger st')" using assms(1) L by (auto simp: tidy_def)
  next
    show "set ids \<subseteq> dom (totals st')" using assms(1) T unfolding tidy_def by blast
  next
    fix a b
    assume ab: "a \<in> set ids" "b \<in> set ids" "a \<noteq> b"
    then obtain x where x: "cell (ledger st) a b = Some (Num x)"
      using assms(1) unfolding tidy_def by blast
    show "\<exists>x. cell (ledger st') a b = Some (Num x)"
      using x r L by (auto simp: cell_def map_of_put)
  qed
qed

lemma apply_expenses_tidy:
  assumes "tidy ids st" and "apply_expenses st expenses = Inr st'"
  shows "tidy ids st'"
proof (rule for_of_invariant[OF assms(2)[unfolded apply_expenses_def], where P = "tidy ids"])
  show "tidy ids st" by (rule assms(1))
next
  fix t e t'
  assume t: "tidy ids t" and e: "apply_expense t e = Inr t'"
  show "tidy ids t'"
    by (rule for_of_invariant[OF e[unfolded apply_expense_def], where P = "tidy ids"])
       (auto intro: t apply_split_tidy)
qed

lemma apply_settlements_tidy:
  assumes "tidy ids st" and "apply_settlements st settlements = Inr st'"
  shows "tidy ids st'"
  by (rule for_of_invariant[OF assms(2)[unfolded apply_settlements_def], where P = "tidy ids"])
     (auto intro: assms(1) apply_settlement_tidy)


subsection \<open>Cells of a member with themselves\<close>

lemma offdiag_lookup:
  assumes "offdiag a r = offdiag a r'" and "k \<noteq> a"
  shows "map_of r k = map_of r' k"
  using map_of_offdiag[OF assms(2), of r] map_of_offdiag[OF assms(2), of r'] assms(1) by simp

lemma diag_lookup:
  assumes "diag_nan st" and "ledger st a = Some r"
  shows "map_of r a = None \<or> map_of r a = Some NaN"
proof (cases "map_of r a")
  case None
  then show ?thesis by simp
next
  case (Some v)
  then have "(a, v) \<in> set r" by (rule map_of_SomeD)
  then show ?thesis using assms Some by (auto simp: diag_nan_def)
qed

lemma diag_nan_put:
  assumes "diag_nan st" and "ledger st a = Some r" and "k = a \<Longrightarrow> v = NaN"
  shows "diag_nan (st\<lparr>ledger := (ledger st)(a \<mapsto> put k v r)\<rparr>)"
  unfolding diag_nan_def
proof (intro allI impI)
  fix c q w
  assume q: "ledger (st\<lparr>ledger := (ledger st)(a \<mapsto> put k v r)\<rparr>) c = Some q" and w: "(c, w) \<in> set q"
  show "w = NaN"
  proof (cases "c = a")
    case True
    then have "q = put k v r" using q by simp
    then have "(c, w) = (k, v) \<or> (c, w) \<in> set r" using w set_put[of k v r] by auto
    then show ?thesis using assms True by (auto simp: diag_nan_def)
  next
    case False
    then show ?thesis using q w assms(1) by (auto simp: diag_nan_def)
  qed
qed

lemma diag_nan_totals: "diag_nan (st\<lparr>totals := t\<rparr>) = diag_nan st"
  by (simp add: diag_nan_def)

lemma diag_nan_init: "diag_nan (init ids)"
proof -
  have "(a, v) \<notin> set (init_row ids a)" for a v
    using map_of_init_row[of ids a a] by (force simp: map_of_eq_None_iff)
  then show ?thesis by (auto simp: diag_nan_def init_def init_ledger_apply split: if_splits)
qed

lemma apply_split_diag:
  assumes "diag_nan st" and "apply_split payer st sp = Inr st'"
  shows "diag_nan st'"
proof (cases "userId sp = payer \<or> paid sp")
  case True
  then show ?thesis using assms by (simp add: apply_split_def)
next
  case False
  then obtain r t where r: "ledger st (userId sp) = Some r"
    and st': "st' = \<lparr>totals = t, ledger = (ledger st)(userId sp \<mapsto>
              put payer (js_add (map_of r payer) (amount sp)) r)\<rparr>"
    using assms(2) by (auto simp: apply_split_def Let_def split: option.splits)
  have eq: "st' = (st\<lparr>ledger := (ledger st)(userId sp \<mapsto>
              put payer (js_add (map_of r payer) (amount sp)) r)\<rparr>)\<lparr>totals := t\<rparr>"
    by (simp add: st')
  have "diag_nan (st\<lparr>ledger := (ledger st)(userId sp \<mapsto>
              put payer (js_add (map_of r payer) (amount sp)) r)\<rparr>)"
    by (rule diag_nan_put[OF assms(1) r]) (use False in auto)
  then show ?thesis by (simp only: eq diag_nan_totals)
qed

lemma apply_settlement_diag:
  assumes "diag_nan st" and "apply_settlement st s = Inr st'"
  shows "diag_nan st'"
proof -
  define p where "p = s_paidByUserId s"
  define q where "q = s_receivedByUserId s"
  obtain r t where r: "ledger st p = Some r"
    and st': "st' = \<lparr>totals = t, ledger = (ledger st)(p \<mapsto>
              put q (js_sub (map_of r q) (s_amount s)) r)\<rparr>"
    using assms(2) by (auto simp: apply_settlement_def Let_def p_def q_def split: option.splits)
  have nan: "q = p \<Longrightarrow> js_sub (map_of r q) (s_amount s) = NaN"
    using diag_lookup[OF assms(1) r] by auto
  have eq: "st' = (st\<lparr>ledger := (ledger st)(p \<mapsto>
              put q (js_sub (map_of r q) (s_amount s)) r)\<rparr>)\<lparr>totals := t\<rparr>"
    by (simp add: st')
  have "diag_nan (st\<lparr>ledger := (ledger st)(p \<mapsto>
              put q (js_sub (map_of r q) (s_amount s)) r)\<rparr>)"
    by (rule diag_nan_put[OF assms(1) r nan])
  then show ?thesis by (simp only: eq diag_nan_totals)
qed

lemma diag_nan_put2:
  assumes "diag_nan st" and "ledger st a = Some ra" and "ledger st b = Some rb" and "a \<noteq> b"
  shows "diag_nan (st\<lparr>ledger := (ledger st)(a \<mapsto> put b va ra, b \<mapsto> put a vb rb)\<rparr>)"
proof -
  define st1 where "st1 = st\<lparr>ledger := (ledger st)(a \<mapsto> put b va ra)\<rparr>"
  have d1: "diag_nan st1"
    unfolding st1_def by (rule diag_nan_put[OF assms(1,2)]) (use assms(4) in auto)
  have rb1: "ledger st1 b = Some rb" using assms(3,4) by (simp add: st1_def)
  have "diag_nan (st1\<lparr>ledger := (ledger st1)(b \<mapsto> put a vb rb)\<rparr>)"
    by (rule diag_nan_put[OF d1 rb1]) (use assms(4) in auto)
  then show ?thesis by (simp add: st1_def)
qed

lemma net_pair_diag_nan:
  assumes "diag_nan st" and "net_pair a st b = Inr st'"
  shows "diag_nan st'"
proof (cases "b \<le> a")
  case True
  then show ?thesis using assms by (simp add: net_pair_skip)
next
  case False
  then have ne: "a \<noteq> b" "b \<noteq> a" by auto
  from False assms(2) obtain ra rb where
    ra: "ledger st a = Some ra" and rb: "ledger st b = Some rb"
    by (auto simp: net_pair_def split: option.splits)
  define d where "d = js_diff (map_of ra b) (map_of rb a)"
  have "st' = st\<lparr>ledger := (ledger st)(a \<mapsto> put b d ra, b \<mapsto> put a (Num 0) rb)\<rparr>
      \<or> st' = st\<lparr>ledger := (ledger st)(b \<mapsto> put a (js_neg d) rb, a \<mapsto> put b (Num 0) ra)\<rparr>
      \<or> st' = st\<lparr>ledger := (ledger st)(b \<mapsto> put a (Num 0) rb, a \<mapsto> put b (Num 0) ra)\<rparr>"
    using False assms(2) ra rb by (auto simp: net_pair_def Let_def d_def split: if_splits)
  then show ?thesis
    using diag_nan_put2[OF assms(1) ra rb ne(1)] diag_nan_put2[OF assms(1) rb ra ne(2)]
    by auto
qed

subsection \<open>States that differ in such cells only\<close>

lemma alike_diag: "alike st st' \<Longrightarrow> diag_nan st \<and> diag_nan st'"
  by (simp add: alike_def)

lemma alike_totals: "alike st st' \<Longrightarrow> totals st = totals st'"
  by (simp add: alike_def)

lemma alikeI:
  assumes "totals X = totals X'" and "diag_nan X" and "diag_nan X'"
    and "\<And>c. rel_option (\<lambda>r r'. offdiag c r = offdiag c r') (ledger X c) (ledger X' c)"
  shows "alike X X'"
  using assms by (simp add: alike_def)

lemma alike_row_rel:
  "alike st st' \<Longrightarrow> rel_option (\<lambda>r r'. offdiag c r = offdiag c r') (ledger st c) (ledger st' c)"
  by (simp add: alike_def)

lemma alike_rows:
  assumes "alike st st'"
  shows "(ledger st a = None \<and> ledger st' a = None)
       \<or> (\<exists>r r'. ledger st a = Some r \<and> ledger st' a = Some r' \<and> offdiag a r = offdiag a r')"
proof -
  have "rel_option (\<lambda>r r'. offdiag a r = offdiag a r') (ledger st a) (ledger st' a)"
    using assms by (simp add: alike_def)
  then show ?thesis
    by (cases "ledger st a"; cases "ledger st' a") auto
qed

lemma apply_split_alike:
  assumes "alike st st'"
  shows "rel_sum (=) alike (apply_split payer st sp) (apply_split payer st' sp)"
proof (cases "userId sp = payer \<or> paid sp")
  case True
  then show ?thesis using assms by (simp add: apply_split_def)
next
  case False
  define debtor where "debtor = userId sp"
  have ne: "payer \<noteq> debtor" using False by (auto simp: debtor_def)
  consider (none) "ledger st debtor = None" "ledger st' debtor = None"
    | (rows) r r' where "ledger st debtor = Some r" "ledger st' debtor = Some r'"
        "offdiag debtor r = offdiag debtor r'"
    using alike_rows[OF assms, of debtor] by auto
  then show ?thesis
  proof cases
    case none
    then show ?thesis using False by (simp add: apply_split_def Let_def debtor_def)
  next
    case (rows r r')
    have v: "map_of r payer = map_of r' payer" by (rule offdiag_lookup[OF rows(3) ne])
    obtain X where X: "apply_split payer st sp = Inr X"
      and LX: "ledger X = (ledger st)(debtor \<mapsto> put payer (js_add (map_of r payer) (amount sp)) r)"
      using False rows(1) by (simp add: apply_split_def Let_def debtor_def)
    obtain X' where X': "apply_split payer st' sp = Inr X'"
      and LX': "ledger X' = (ledger st')(debtor \<mapsto> put payer (js_add (map_of r payer) (amount sp)) r')"
      using False rows(2) v by (simp add: apply_split_def Let_def debtor_def)
    have T: "totals X = totals X'"
      using X X' False alike_totals[OF assms]
      by (auto simp: apply_split_def Let_def split: option.splits)
    have "alike X X'"
    proof (rule alikeI[OF T])
      show "diag_nan X" using apply_split_diag[OF _ X] alike_diag[OF assms] by simp
      show "diag_nan X'" using apply_split_diag[OF _ X'] alike_diag[OF assms] by simp
      fix c
      show "rel_option (\<lambda>r r'. offdiag c r = offdiag c r') (ledger X c) (ledger X' c)"
        using alike_row_rel[OF assms, of c] rows(3) ne
        by (simp add: LX LX' offdiag_put_other)
    qed
    then show ?thesis using X X' by simp
  qed
qed

lemma apply_settlement_alike:
  assumes "alike st st'"
  shows "rel_sum (=) alike (apply_settlement st s) (apply_settlement st' s)"
proof -
  define p where "p = s_paidByUserId s"
  define q where "q = s_receivedByUserId s"
  consider (none) "ledger st p = None" "ledger st' p = None"
    | (rows) r r' where "ledger st p = Some r" "ledger st' p = Some r'"
        "offdiag p r = offdiag p r'"
    using alike_rows[OF assms, of p] by auto
  then show ?thesis
  proof cases
    case none
    then show ?thesis by (simp add: apply_settlement_def Let_def p_def)
  next
    case (rows r r')
    obtain X where X: "apply_settlement st s = Inr X"
      and LX: "ledger X = (ledger st)(p \<mapsto> put q (js_sub (map_of r q) (s_amount s)) r)"
      using rows(1) by (simp add: apply_settlement_def Let_def p_def q_def)
    obtain X' where X': "apply_settlement st' s = Inr X'"
      and LX': "ledger X' = (ledger st')(p \<mapsto> put q (js_sub (map_of r' q) (s_amount s)) r')"
      using rows(2) by (simp add: apply_settlement_def Let_def p_def q_def)
    have T: "totals X = totals X'"
      using X X' alike_totals[OF assms]
      by (auto simp: apply_settlement_def Let_def split: option.splits)
    have row: "offdiag p (put q (js_sub (map_of r q) (s_amount s)) r)
             = offdiag p (put q (js_sub (map_of r' q) (s_amount s)) r')"
    proof (cases "q = p")
      case True
      then show ?thesis using rows(3) by (simp add: offdiag_put_diag)
    next
      case False
      then show ?thesis
        using rows(3) offdiag_lookup[OF rows(3) False] by (simp add: offdiag_put_other)
    qed
    have "alike X X'"
    proof (rule alikeI[OF T])
      show "diag_nan X" using apply_settlement_diag[OF _ X] alike_diag[OF assms] by simp
      show "diag_nan X'" using apply_settlement_diag[OF _ X'] alike_diag[OF assms] by simp
      fix c
      show "rel_option (\<lambda>r r'. offdiag c r = offdiag c r') (ledger X c) (ledger X' c)"
        using alike_row_rel[OF assms, of c] row by (simp add: LX LX')
    qed
    then show ?thesis using X X' by simp
  qed
qed

lemma alike_net_rows:
  assumes "alike st st'" and "a \<noteq> b"
    and "offdiag a ra = offdiag a ra'" and "offdiag b rb = offdiag b rb'"
    and "diag_nan (st\<lparr>ledger := (ledger st)(a \<mapsto> put b v ra, b \<mapsto> put a w rb)\<rparr>)"
    and "diag_nan (st'\<lparr>ledger := (ledger st')(a \<mapsto> put b v ra', b \<mapsto> put a w rb')\<rparr>)"
  shows "alike (st\<lparr>ledger := (ledger st)(a \<mapsto> put b v ra, b \<mapsto> put a w rb)\<rparr>)
               (st'\<lparr>ledger := (ledger st')(a \<mapsto> put b v ra', b \<mapsto> put a w rb')\<rparr>)"
proof (rule alikeI)
  show "totals (st\<lparr>ledger := (ledger st)(a \<mapsto> put b v ra, b \<mapsto> put a w rb)\<rparr>)
      = totals (st'\<lparr>ledger := (ledger st')(a \<mapsto> put b v ra', b \<mapsto> put a w rb')\<rparr>)"
    using alike_totals[OF assms(1)] by simp
  show "diag_nan (st\<lparr>ledger := (ledger st)(a \<mapsto> put b v ra, b \<mapsto> put a w rb)\<rparr>)"
    by (rule assms(5))
  show "diag_nan (st'\<lparr>ledger := (ledger st')(a \<mapsto> put b v ra', b \<mapsto> put a w rb')\<rparr>)"
    by (rule assms(6))
  fix c
  show "rel_option (\<lambda>r r'. offdiag c r = offdiag c r')
          (ledger (st\<lparr>ledger := (ledger st)(a \<mapsto> put b v ra, b \<mapsto> put a w rb)\<rparr>) c)
          (ledger (st'\<lparr>ledger := (ledger st')(a \<mapsto> put b v ra', b \<mapsto> put a w rb')\<rparr>) c)"
    using alike_row_rel[OF assms(1), of c] assms(2-4)
    by (simp add: offdiag_put_other)
qed

lemma net_pair_alike:
  assumes "alike st st'"
  shows "rel_sum (=) alike (net_pair a st b) (net_pair a st' b)"
proof (cases "b \<le> a")
  case True
  then show ?thesis using assms by (simp add: net_pair_skip)
next
  case False
  then have ne: "a \<noteq> b" "b \<noteq> a" by auto
  note d = alike_diag[OF assms]
  consider (none) "ledger st a = None" "ledger st' a = None"
    | (rows) ra ra' where "ledger st a = Some ra" "ledger st' a = Some ra'"
        "offdiag a ra = offdiag a ra'"
    using alike_rows[OF assms, of a] by auto
  then show ?thesis
  proof cases
    case none
    then show ?thesis using False by (simp add: net_pair_def)
  next
    case ra: (rows ra ra')
    consider (none) "ledger st b = None" "ledger st' b = None"
      | (rows) rb rb' where "ledger st b = Some rb" "ledger st' b = Some rb'"
          "offdiag b rb = offdiag b rb'"
      using alike_rows[OF assms, of b] by auto
    then show ?thesis
    proof cases
      case none
      then show ?thesis using False ra by (simp add: net_pair_def)
    next
      case rb: (rows rb rb')
      have diff: "js_diff (map_of ra' b) (map_of rb' a) = js_diff (map_of ra b) (map_of rb a)"
        using offdiag_lookup[OF ra(3) ne(2)] offdiag_lookup[OF rb(3) ne(1)] by simp
      define dd where "dd = js_diff (map_of ra b) (map_of rb a)"
      have A: "alike (st\<lparr>ledger := (ledger st)(a \<mapsto> put b v ra, b \<mapsto> put a w rb)\<rparr>)
               (st'\<lparr>ledger := (ledger st')(a \<mapsto> put b v ra', b \<mapsto> put a w rb')\<rparr>)" for v w
        by (rule alike_net_rows[OF assms ne(1) ra(3) rb(3)
              diag_nan_put2[OF d[THEN conjunct1] ra(1) rb(1) ne(1)]
              diag_nan_put2[OF d[THEN conjunct2] ra(2) rb(2) ne(1)]])
      have B: "alike (st\<lparr>ledger := (ledger st)(b \<mapsto> put a w rb, a \<mapsto> put b v ra)\<rparr>)
               (st'\<lparr>ledger := (ledger st')(b \<mapsto> put a w rb', a \<mapsto> put b v ra')\<rparr>)" for v w
        by (rule alike_net_rows[OF assms ne(2) rb(3) ra(3)
              diag_nan_put2[OF d[THEN conjunct1] rb(1) ra(1) ne(2)]
              diag_nan_put2[OF d[THEN conjunct2] rb(2) ra(2) ne(2)]])
      show ?thesis
        using False ra(1,2) rb(1,2) diff A B
        by (simp add: net_pair_def Let_def)
    qed
  qed
qed

lemma net_off_alike:
  assumes "alike st st'"
  shows "rel_sum (=) alike (net_off ids st) (net_off ids st')"
  unfolding net_off_def
proof (rule for_of_related[where R = alike])
  show "alike st st'" by (rule assms)
next
  fix s t :: "'a acc" and a
  assume "alike s t"
  then show "rel_sum (=) alike (for_of (net_pair a) ids s) (for_of (net_pair a) ids t)"
    by (rule for_of_related[where R = alike]) (rule net_pair_alike)
qed

lemma apply_settlements_alike:
  assumes "alike st st'"
  shows "rel_sum (=) alike (apply_settlements st ss) (apply_settlements st' ss)"
  unfolding apply_settlements_def
  by (rule for_of_related[where R = alike]) (auto intro: assms apply_settlement_alike)

lemma self_settlement_alike:
  assumes "s_paidByUserId s = s_receivedByUserId s"
    and "s_paidByUserId s \<in> dom (totals st)" and "s_paidByUserId s \<in> dom (ledger st)"
    and "diag_nan st"
  shows "\<exists>st'. apply_settlement st s = Inr st' \<and> alike st st'"
proof -
  define p where "p = s_paidByUserId s"
  have q: "s_receivedByUserId s = p" using assms(1) by (simp add: p_def)
  obtain r where r: "ledger st p = Some r" using assms(3) by (auto simp: p_def)
  obtain v where v: "totals st p = Some v" using assms(2) by (auto simp: p_def)
  have cancel: "js_sub (Some (js_add (Some v) (s_amount s))) (s_amount s) = v"
    by (cases v) auto
  define X where "X = \<lparr>totals = totals st,
    ledger = (ledger st)(p \<mapsto> put p (js_sub (map_of r p) (s_amount s)) r)\<rparr>"
  have "(totals st)(p \<mapsto> v) = totals st" using v by (auto simp: fun_eq_iff)
  then have X: "apply_settlement st s = Inr X"
    using r v cancel q by (simp add: apply_settlement_def Let_def p_def[symmetric] X_def)
  have "alike st X"
  proof (rule alikeI)
    show "totals st = totals X" by (simp add: X_def)
    show "diag_nan st" by (rule assms(4))
    show "diag_nan X" by (rule apply_settlement_diag[OF assms(4) X])
    fix c
    show "rel_option (\<lambda>r r'. offdiag c r = offdiag c r') (ledger st c) (ledger X c)"
      using r by (cases "ledger st c") (auto simp: X_def offdiag_put_diag)
  qed
  then show ?thesis using X by blast
qed

subsection \<open>Shaping alike states\<close>

lemma owes_of_offdiag:
  "(\<And>v. (a, v) \<in> set r \<Longrightarrow> v = NaN) \<Longrightarrow> owes_of r = owes_of (offdiag a r)"
proof (induction r)
  case Nil
  then show ?case by (simp add: owes_of_def offdiag_def)
next
  case (Cons p r)
  have IH: "owes_of r = owes_of (offdiag a r)" using Cons by auto
  show ?case
  proof (cases "fst p = a")
    case True
    then have "snd p = NaN" using Cons.prems[of "snd p"] by (cases p) auto
    then show ?thesis using True IH by (cases p) (auto simp: owes_of_def offdiag_def)
  next
    case False
    then show ?thesis using IH by (cases p) (auto simp: owes_of_def offdiag_def)
  qed
qed

lemma owes_of_alike:
  assumes "alike st st'" and "ledger st a = Some r" and "ledger st' a = Some r'"
  shows "owes_of r = owes_of r'"
proof -
  have d: "diag_nan st" "diag_nan st'" using alike_diag[OF assms(1)] by simp_all
  have "offdiag a r = offdiag a r'" using alike_rows[OF assms(1), of a] assms(2,3) by auto
  moreover have "owes_of r = owes_of (offdiag a r)"
    by (rule owes_of_offdiag) (use d(1) assms(2) in \<open>auto simp: diag_nan_def\<close>)
  moreover have "owes_of r' = owes_of (offdiag a r')"
    by (rule owes_of_offdiag) (use d(2) assms(3) in \<open>auto simp: diag_nan_def\<close>)
  ultimately show ?thesis by simp
qed

lemma owedBy_of_alike:
  assumes "alike st st'"
  shows "owedBy_of (ledger st) m xs = owedBy_of (ledger st') m xs"
proof (induction xs)
  case Nil
  then show ?case by simp
next
  case (Cons x xs)
  consider (none) "ledger st x = None" "ledger st' x = None"
    | (rows) r r' where "ledger st x = Some r" "ledger st' x = Some r'"
        "offdiag x r = offdiag x r'"
    using alike_rows[OF assms, of x] by auto
  then show ?case
  proof cases
    case none
    then show ?thesis by simp
  next
    case (rows r r')
    show ?thesis
    proof (cases "m = x")
      case True
      have "map_of r m = None \<or> map_of r m = Some NaN"
        using diag_lookup[OF _ rows(1)] alike_diag[OF assms] True by simp
      moreover have "map_of r' m = None \<or> map_of r' m = Some NaN"
        using diag_lookup[OF _ rows(2)] alike_diag[OF assms] True by simp
      ultimately show ?thesis using rows(1,2) Cons by (auto split: sum.splits)
    next
      case False
      then have "map_of r m = map_of r' m" by (rule offdiag_lookup[OF rows(3)])
      then show ?thesis using rows(1,2) Cons by (simp cong: sum.case_cong)
    qed
  qed
qed

lemma shape_member_alike:
  assumes "alike st st'"
  shows "shape_member ids st m = shape_member ids st' m"
proof -
  consider (none) "ledger st (md_id m) = None" "ledger st' (md_id m) = None"
    | (rows) r r' where "ledger st (md_id m) = Some r" "ledger st' (md_id m) = Some r'"
        "offdiag (md_id m) r = offdiag (md_id m) r'"
    using alike_rows[OF assms, of "md_id m"] by auto
  then show ?thesis
  proof cases
    case none
    then show ?thesis by (simp add: shape_member_def)
  next
    case (rows r r')
    then show ?thesis
      using owes_of_alike[OF assms rows(1,2)] owedBy_of_alike[OF assms, of "md_id m" ids]
        alike_totals[OF assms]
      by (simp add: shape_member_def cong: sum.case_cong)
  qed
qed

lemma shape_balances_alike:
  assumes "alike st st'"
  shows "shape_balances ids st mds = shape_balances ids st' mds"
proof -
  have "shape_member ids st = shape_member ids st'"
    by (rule ext) (rule shape_member_alike[OF assms])
  then show ?thesis by (simp add: shape_balances_def)
qed

lemma apply_expenses_diag:
  assumes "diag_nan st" and "apply_expenses st expenses = Inr st'"
  shows "diag_nan st'"
proof (rule for_of_invariant[OF assms(2)[unfolded apply_expenses_def], where P = diag_nan])
  show "diag_nan st" by (rule assms(1))
next
  fix t t' :: "'a acc" and e
  assume t: "diag_nan t" and e: "apply_expense t e = Inr t'"
  show "diag_nan t'"
    by (rule for_of_invariant[OF e[unfolded apply_expense_def], where P = diag_nan])
       (auto intro: t apply_split_diag)
qed

lemma apply_settlements_diag:
  assumes "diag_nan st" and "apply_settlements st settlements = Inr st'"
  shows "diag_nan st'"
  by (rule for_of_invariant[OF assms(2)[unfolded apply_settlements_def], where P = diag_nan])
     (auto intro: assms(1) apply_settlement_diag)

lemma apply_settlements_append:
  "apply_settlements st (xs @ ys) =
     (case apply_settlements st xs of Inl e \<Rightarrow> Inl e | Inr st' \<Rightarrow> apply_settlements st' ys)"
  by (simp add: apply_settlements_def for_of_append cong: sum.case_cong)

lemma apply_settlements_Cons:
  "apply_settlements st (x # xs) =
     (case apply_settlement st x of Inl e \<Rightarrow> Inl e | Inr st' \<Rightarrow> apply_settlements st' xs)"
  by (simp add: apply_settlements_def cong: sum.case_cong)

lemma finish_alike:
  assumes "rel_sum (=) alike R R'"
  shows "(case (case R of Inl e \<Rightarrow> Inl e | Inr st \<Rightarrow> net_off ids st) of
            Inl e \<Rightarrow> Inl e | Inr st \<Rightarrow> shape_balances ids st mds)
       = (case (case R' of Inl e \<Rightarrow> Inl e | Inr st \<Rightarrow> net_off ids st) of
            Inl e \<Rightarrow> Inl e | Inr st \<Rightarrow> shape_balances ids st mds)"
proof (cases R)
  case (Inl e)
  then show ?thesis using assms by (cases R') auto
next
  case (Inr X)
  then obtain X' where X': "R' = Inr X'" "alike X X'" using assms by (cases R') auto
  have n: "rel_sum (=) alike (net_off ids X) (net_off ids X')" by (rule net_off_alike[OF X'(2)])
  show ?thesis
  proof (cases "net_off ids X")
    case (Inl e)
    then show ?thesis using n Inr X' by (cases "net_off ids X'") auto
  next
    case Y: (Inr Y)
    then obtain Y' where "net_off ids X' = Inr Y'" "alike Y Y'"
      using n by (cases "net_off ids X'") auto
    then show ?thesis using Inr X' Y shape_balances_alike[of Y Y' ids mds] by simp
  qed
qed

subsection \<open>Splits that are skipped\<close>

lemma for_of_drop:
  assumes "\<And>t. f t x = Inr t"
  shows "for_of f (xs @ x # ys) s = for_of f (xs @ ys) s"
  using assms by (simp add: for_of_append cong: sum.case_cong)

lemma apply_expense_drop:
  assumes "userId sp = paidByUserId e \<or> paid sp" and "splits e = s1 @ sp # s2"
  shows "apply_expense st e = apply_expense st (e\<lparr>splits := s1 @ s2\<rparr>)"
proof -
  have "apply_split (paidByUserId e) t sp = Inr t" for t
    using assms(1) by (simp add: apply_split_def)
  then show ?thesis
    using assms(2) by (simp add: apply_expense_def for_of_drop)
qed

lemma apply_expenses_drop:
  assumes "userId sp = paidByUserId e \<or> paid sp" and "splits e = s1 @ sp # s2"
  shows "apply_expenses st (es1 @ e # es2) = apply_expenses st (es1 @ e\<lparr>splits := s1 @ s2\<rparr> # es2)"
  using apply_expense_drop[OF assms]
  by (simp add: apply_expenses_def for_of_append cong: sum.case_cong)

lemma apply_split_no_self:
  assumes "no_self st" and "apply_split payer st sp = Inr st'"
  shows "no_self st'"
proof (cases "userId sp = payer \<or> paid sp")
  case True
  then show ?thesis using assms by (simp add: apply_split_def)
next
  case False
  then obtain r where r: "ledger st (userId sp) = Some r"
    and L: "ledger st' = (ledger st)(userId sp \<mapsto>
              put payer (js_add (map_of r payer) (amount sp)) r)"
    using assms(2) by (auto simp: apply_split_def Let_def split: option.splits)
  have "cell (ledger st') m m = None" for m
    using assms(1) False r L by (auto simp: no_self_def cell_def map_of_put split: option.splits)
  then show ?thesis by (simp add: no_self_def)
qed

lemma apply_expenses_no_self:
  assumes "apply_expenses (init ids) expenses = Inr st"
  shows "no_self st"
proof (rule for_of_invariant[OF assms[unfolded apply_expenses_def], where P = no_self])
  show "no_self (init ids)" by (simp add: no_self_def cell_init)
next
  fix t t' :: "'a acc" and e
  assume t: "no_self t" and e: "apply_expense t e = Inr t'"
  show "no_self t'"
    by (rule for_of_invariant[OF e[unfolded apply_expense_def], where P = no_self])
       (auto intro: t apply_split_no_self)
qed

subsection \<open>Runs that throw\<close>

lemma for_of_error:
  assumes "for_of f xs s = Inl e"
  shows "\<exists>t x. x \<in> set xs \<and> f t x = Inl e"
  using assms
proof (induction xs arbitrary: s)
  case Nil
  then show ?case by simp
next
  case (Cons x xs)
  show ?case
  proof (cases "f s x")
    case (Inl e')
    then show ?thesis using Cons.prems by auto
  next
    case (Inr t)
    then have "for_of f xs t = Inl e" using Cons.prems by simp
    then show ?thesis using Cons.IH by fastforce
  qed
qed

lemma for_of_fails:
  assumes "x \<in> set xs" and "P s"
    and "\<And>t. P t \<Longrightarrow> \<exists>e. f t x = Inl e"
    and "\<And>t y t'. P t \<Longrightarrow> f t y = Inr t' \<Longrightarrow> P t'"
  shows "\<exists>e. for_of f xs s = Inl e"
  using assms(1,2)
proof (induction xs arbitrary: s)
  case Nil
  then show ?case by simp
next
  case (Cons y ys)
  show ?case
  proof (cases "f s y")
    case (Inl e)
    then show ?thesis by simp
  next
    case (Inr t)
    then have y: "y \<noteq> x" using assms(3)[OF Cons.prems(2)] by auto
    have "P t" by (rule assms(4)[OF Cons.prems(2) Inr])
    then show ?thesis using Cons.IH[of t] Cons.prems(1) y Inr by auto
  qed
qed

lemma apply_split_ledger_dom:
  "apply_split payer st sp = Inr st' \<Longrightarrow> dom (ledger st') = dom (ledger st)"
  by (auto simp: apply_split_def Let_def split: if_splits option.splits)

lemma apply_split_error: "apply_split payer st sp = Inl e \<Longrightarrow> e = TypeError"
  by (auto simp: apply_split_def Let_def split: if_splits option.splits)

lemma apply_expenses_error:
  fixes st :: "'a acc"
  assumes "apply_expenses st expenses = Inl e"
  shows "e = TypeError"
proof -
  obtain t :: "'a acc" and x where "apply_expense t x = Inl e"
    using for_of_error[OF assms[unfolded apply_expenses_def]] by auto
  then obtain t' sp where "apply_split (paidByUserId x) t' sp = Inl e"
    using for_of_error[of "apply_split (paidByUserId x)" "splits x" t e]
    by (auto simp: apply_expense_def)
  then show ?thesis by (rule apply_split_error)
qed

lemma unknown_debtor_throws:
  assumes "e \<in> set expenses" and "sp \<in> set (splits e)"
    and "userId sp \<noteq> paidByUserId e" and "\<not> paid sp"
    and "userId sp \<notin> md_id ` set memberDetails"
  shows "balances memberDetails expenses settlements = Inl TypeError"
proof -
  define ids where "ids = map md_id memberDetails"
  define P where "P = (\<lambda>t :: 'a acc. ledger t (userId sp) = None)"
  have split_keeps: "P t'" if "P t" "apply_split payer t y = Inr t'" for t t' payer y
    using that apply_split_ledger_dom[OF that(2)] by (auto simp: P_def domIff)
  have expense_keeps: "P t'" if "P t" "apply_expense t y = Inr t'" for t t' y
    by (rule for_of_invariant[OF that(2)[unfolded apply_expense_def], where P = P])
       (auto intro: that(1) split_keeps)
  have split_fails: "\<exists>err. apply_split (paidByUserId e) t sp = Inl err" if "P t" for t
    using that assms(3,4) by (simp add: apply_split_def Let_def P_def)
  have expense_fails: "\<exists>err. apply_expense t e = Inl err" if "P t" for t
    unfolding apply_expense_def
    by (rule for_of_fails[OF assms(2), where P = P]) (auto intro: that split_fails split_keeps)
  have "P (init ids)"
    using assms(5) by (simp add: P_def init_def init_ledger_apply ids_def)
  then have "\<exists>err. apply_expenses (init ids) expenses = Inl err"
    unfolding apply_expenses_def
    by (intro for_of_fails[OF assms(1), where P = P]) (auto intro: expense_fails expense_keeps)
  then obtain err where err: "apply_expenses (init ids) expenses = Inl err" by blast
  then have "err = TypeError" by (rule apply_expenses_error)
  then show ?thesis
    using err by (simp add: balances_def netted_def before_netting_def ids_def Let_def)
qed

lemma map_err_fails:
  assumes "x \<in> set xs" and "f x = Inl e" and "\<And>y e'. f y = Inl e' \<Longrightarrow> e' = e"
  shows "map_err f xs = Inl e"
  using assms(1)
proof (induction xs)
  case Nil
  then show ?case by simp
next
  case (Cons y ys)
  show ?case
  proof (cases "f y")
    case (Inl e')
    then show ?thesis using assms(3) by simp
  next
    case (Inr z)
    then have "x \<in> set ys" using Cons.prems assms(2) by auto
    then show ?thesis using Cons.IH Inr by simp
  qed
qed

lemma deleted_user_throws:
  assumes "db_groups db gid = Some g"
    and "list_ex (\<lambda>m. m_userId m = currentUser) (members g)"
    and "m \<in> set (members g)" and "db_users db (m_userId m) = None"
  shows "snd (getGroupExpenses db currentUser gid) = Inl TypeError"
proof -
  have "member_detail db m = Inl TypeError" using assms(4) by (simp add: member_detail_def)
  moreover have "e' = TypeError" if "member_detail db y = Inl e'" for y e'
    using that by (auto simp: member_detail_def split: option.splits)
  ultimately have "map_err (member_detail db) (members g) = Inl TypeError"
    using map_err_fails[OF assms(3)] by blast
  then show ?thesis using assms(1,2) by (simp add: getGroupExpenses_def Let_def)
qed

subsection \<open>Conservation and self-settlements in exact arithmetic\<close>

lemma conservation_exact:
  assumes "valid_input (map md_id memberDetails) expenses settlements"
  shows "\<exists>st bs. before_netting (map md_id memberDetails) expenses settlements = Inr st
           \<and> js_total (map (totals st) (remdups (map md_id memberDetails))) = Num 0
           \<and> balances memberDetails expenses settlements = Inr bs
           \<and> js_total (map snd (reported_totals bs)) = Num 0"
proof -
  define ids where "ids = map md_id memberDetails"
  obtain st where st: "before_netting ids expenses settlements = Inr st" "sound ids st"
    using before_netting_sound assms unfolding ids_def by blast
  have dom: "set ids \<subseteq> dom (ledger st)" using st(2) by (simp add: sound_def)
  obtain st' where st': "net_off ids st = Inr st'" using net_off_succeeds[OF dom] by blast
  have s': "sound ids st'" by (rule sound_net_off[OF st' st(2)])
  have dom': "set ids \<subseteq> dom (ledger st')" using s' by (simp add: sound_def)
  obtain bs where bs: "shape_balances ids st' memberDetails = Inr bs"
    using shape_balances_defined[OF dom', of memberDetails] by (auto simp: ids_def)
  have "balances memberDetails expenses settlements = Inr bs"
    using st(1) st' bs by (simp add: balances_def netted_def ids_def Let_def)
  moreover have "js_total (map snd (reported_totals bs)) = Num 0"
    using reported_totals_shape[OF bs] js_total_sound[OF s'] by (simp add: ids_def)
  ultimately show ?thesis
    using st(1) js_total_sound[OF st(2)] unfolding ids_def by blast
qed

lemma self_settlement_exact:
  assumes "s_paidByUserId s = s_receivedByUserId s"
    and "s_paidByUserId s \<in> md_id ` set memberDetails"
  shows "balances memberDetails expenses (ss1 @ s # ss2)
       = balances memberDetails expenses (ss1 @ ss2)"
proof -
  define ids where "ids = map md_id memberDetails"
  have pin: "s_paidByUserId s \<in> set ids" using assms(2) by (simp add: ids_def)
  show ?thesis
  proof (cases "apply_expenses (init ids) expenses")
    case (Inl e)
    then show ?thesis by (simp add: balances_def netted_def before_netting_def ids_def Let_def)
  next
    case (Inr st0)
    have t0: "tidy ids st0" by (rule apply_expenses_tidy[OF tidy_init Inr])
    have d0: "diag_nan st0" by (rule apply_expenses_diag[OF diag_nan_init Inr])
    show ?thesis
    proof (cases "apply_settlements st0 ss1")
      case (Inl e)
      then show ?thesis
        using Inr
        by (simp add: balances_def netted_def before_netting_def ids_def[symmetric] Let_def
            apply_settlements_append)
    next
      case st1: (Inr st1)
      have t1: "tidy ids st1" by (rule apply_settlements_tidy[OF t0 st1])
      have d1: "diag_nan st1" by (rule apply_settlements_diag[OF d0 st1])
      obtain st1' where s: "apply_settlement st1 s = Inr st1'" and a: "alike st1 st1'"
        using self_settlement_alike[OF assms(1) _ _ d1] t1 pin by (auto simp: tidy_def)
      have rel: "rel_sum (=) alike (apply_settlements st1' ss2) (apply_settlements st1 ss2)"
      proof -
        have "rel_sum (=) alike (apply_settlements st1 ss2) (apply_settlements st1' ss2)"
          by (rule apply_settlements_alike[OF a])
        moreover have "alike y x" if "alike x y" for x y :: "'a acc"
          using that by (auto simp: alike_def option.rel_flip[symmetric, of _ "ledger y _"]
              intro: option.rel_mono_strong)
        ultimately show ?thesis
          by (cases "apply_settlements st1 ss2"; cases "apply_settlements st1' ss2") auto
      qed
      have with_s: "before_netting ids expenses (ss1 @ s # ss2) = apply_settlements st1' ss2"
        using Inr st1 s
        by (simp add: before_netting_def apply_settlements_append apply_settlements_Cons)
      have without_s: "before_netting ids expenses (ss1 @ ss2) = apply_settlements st1 ss2"
        using Inr st1 by (simp add: before_netting_def apply_settlements_append)
      show ?thesis
        using finish_alike[OF rel, of ids memberDetails]
        by (simp add: balances_def netted_def ids_def[symmetric] Let_def with_s without_s)
    qed
  qed
qed

section \<open>Lemmas on the double precision\<close>

subsection \<open>Rounding\<close>

declare bits.simps [simp del]

lemma bits_nonpos: "n \<le> 0 \<Longrightarrow> bits n = 0"
  by (simp add: bits.simps)

lemma bits_double: "0 < n \<Longrightarrow> bits (2 * n) = Suc (bits n)"
  by (subst bits.simps) simp

lemma bits_shift: "0 < n \<Longrightarrow> bits (n * 2 ^ c) = bits n + c"
proof (induction c)
  case 0
  then show ?case by simp
next
  case (Suc c)
  have "bits (n * 2 ^ Suc c) = bits (2 * (n * 2 ^ c))" by (simp add: mult.commute mult.left_commute)
  also have "\<dots> = Suc (bits (n * 2 ^ c))" using Suc.prems by (intro bits_double) simp
  finally show ?case using Suc by simp
qed

lemma bits_lower: "0 < n \<Longrightarrow> 2 ^ (bits n - 1) \<le> n"
proof (induction n rule: bits.induct)
  case (1 n)
  show ?case
  proof (cases "n div 2 \<le> 0")
    case True
    then have "bits (n div 2) = 0" by (rule bits_nonpos)
    then have "bits n = 1" using "1.prems" by (subst bits.simps) simp
    then show ?thesis using "1.prems" by simp
  next
    case False
    then have pos: "0 < n div 2" by simp
    have IH: "2 ^ (bits (n div 2) - 1) \<le> n div 2" using "1.IH" "1.prems" pos by simp
    have b: "bits n = Suc (bits (n div 2))" using "1.prems" by (subst bits.simps) simp
    have "0 < bits (n div 2)" using pos by (subst bits.simps) simp
    then have "(2::int) ^ (bits n - 1) = 2 * 2 ^ (bits (n div 2) - 1)"
      using b by (cases "bits (n div 2)") simp_all
    also have "\<dots> \<le> 2 * (n div 2)" using IH by simp
    also have "\<dots> \<le> n" by simp
    finally show ?thesis .
  qed
qed

lemma bits_le:
  assumes "0 < n" and "n < 2 ^ k"
  shows "bits n \<le> k"
proof -
  have "(2::int) ^ (bits n - 1) < 2 ^ k" using bits_lower[OF assms(1)] assms(2) by linarith
  then have "bits n - 1 < k" using power_less_imp_less_exp[of "2::int"] by simp
  then show ?thesis by simp
qed

lemma nearest_even_0: "nearest_even a 0 = a"
  by (simp add: nearest_even_def)

lemma nearest_even_shift:
  assumes "0 \<le> a"
  shows "nearest_even (a * 2 ^ c) (k + c) = nearest_even a k * 2 ^ c"
proof -
  have d: "(a * 2 ^ c) div 2 ^ (k + c) = a div 2 ^ k"
    by (simp add: power_add)
  have m: "(a * 2 ^ c) mod 2 ^ (k + c) = (a mod 2 ^ k) * 2 ^ c"
    by (simp add: power_add mult_mod_left mult.commute)
  have p: "(2::int) ^ (k + c) = 2 ^ k * 2 ^ c" by (simp add: power_add)
  have lt: "2 * ((a mod 2 ^ k) * 2 ^ c) < 2 ^ k * 2 ^ c \<longleftrightarrow> 2 * (a mod 2 ^ k) < (2::int) ^ k"
    using mult_less_cancel_right_pos[of "2 ^ c" "2 * (a mod 2 ^ k)" "(2::int) ^ k"] by (simp add: mult.assoc)
  have gt: "2 ^ k * 2 ^ c < 2 * ((a mod 2 ^ k) * 2 ^ c) \<longleftrightarrow> (2::int) ^ k < 2 * (a mod 2 ^ k)"
    using mult_less_cancel_right_pos[of "2 ^ c" "(2::int) ^ k" "2 * (a mod 2 ^ k)"] by (simp add: mult.assoc)
  show ?thesis
    unfolding nearest_even_def Let_def d m p lt gt by (simp add: mult.assoc)
qed

lemma nearest_even_exact: "a mod 2 ^ k = 0 \<Longrightarrow> nearest_even a k = a"
  by (auto simp: nearest_even_def Let_def)

lemma nearest_even_bounds:
  assumes "0 \<le> a"
  shows "0 \<le> nearest_even a k \<and> nearest_even a k \<le> a + 2 ^ k"
proof -
  have q: "0 \<le> a div 2 ^ k" using assms by (simp add: pos_imp_zdiv_nonneg_iff)
  have le: "a div 2 ^ k * 2 ^ k \<le> a"
    by (metis div_mult_mod_eq add.commute le_add_same_cancel2 pos_mod_sign zero_less_numeral zero_less_power order_less_imp_le)
  have up: "(a div 2 ^ k + 1) * 2 ^ k = a div 2 ^ k * 2 ^ k + 2 ^ k" by (simp add: algebra_simps)
  have p: "0 \<le> (2::int) ^ k" by simp
  have q': "0 \<le> a div 2 ^ k * 2 ^ k" using q by simp
  show ?thesis
    unfolding nearest_even_def Let_def up using q' le p by (simp del: zero_le_power)
qed

text \<open>Rounding an integer multiple of a power of two.\<close>

lemma round_shift:
  assumes "0 \<le> a"
  shows "nearest_even (a * 2 ^ c) (bits (a * 2 ^ c) - 53) = nearest_even a (bits a - 53) * 2 ^ c"
proof (cases "a = 0")
  case True
  then show ?thesis by (simp add: bits_nonpos nearest_even_0)
next
  case False
  then have pos: "0 < a" using assms by simp
  have b: "bits (a * 2 ^ c) = bits a + c" by (rule bits_shift[OF pos])
  show ?thesis
  proof (cases "53 \<le> bits a")
    case True
    then have "bits (a * 2 ^ c) - 53 = (bits a - 53) + c" using b by simp
    then show ?thesis using nearest_even_shift[OF assms] by simp
  next
    case small: False
    then have k0: "bits a - 53 = 0" by simp
    define k where "k = bits (a * 2 ^ c) - 53"
    have "k \<le> c" using small b by (simp add: k_def)
    then obtain d where d: "c = k + d" using le_Suc_ex by blast
    have "(a * 2 ^ c) mod 2 ^ k = 0" by (simp add: d power_add)
    then have "nearest_even (a * 2 ^ c) k = a * 2 ^ c" by (rule nearest_even_exact)
    then show ?thesis by (simp add: k_def[symmetric] k0 nearest_even_0)
  qed
qed

lemma round_int_exact:
  assumes "\<bar>w\<bar> \<le> 2 ^ 53"
  shows "round_int w = w"
proof (cases "w = 0")
  case True
  then show ?thesis by (simp add: round_int_def bits_nonpos nearest_even_0)
next
  case False
  then have pos: "0 < \<bar>w\<bar>" by simp
  have "nearest_even \<bar>w\<bar> (bits \<bar>w\<bar> - 53) = \<bar>w\<bar>"
  proof (cases "\<bar>w\<bar> = 2 ^ 53")
    case True
    have "bits \<bar>w\<bar> \<le> 54" by (rule bits_le[OF pos]) (simp add: True)
    then have "bits \<bar>w\<bar> - 53 = 0 \<or> bits \<bar>w\<bar> - 53 = 1" by auto
    moreover have "\<bar>w\<bar> mod 2 ^ 1 = 0" by (simp add: True)
    ultimately show ?thesis by (auto simp: nearest_even_0 intro: nearest_even_exact)
  next
    case False
    then have "\<bar>w\<bar> < 2 ^ 53" using assms by simp
    then have "bits \<bar>w\<bar> \<le> 53" by (rule bits_le[OF pos])
    then show ?thesis by (simp add: nearest_even_0)
  qed
  then show ?thesis by (simp add: round_int_def mult_sgn_abs)
qed

lemma round_int_bound:
  assumes "\<bar>n\<bar> \<le> 2 ^ 60"
  shows "\<bar>round_int n\<bar> \<le> 2 ^ 61"
proof (cases "n = 0")
  case True
  then show ?thesis by (simp add: round_int_def)
next
  case False
  then have pos: "0 < \<bar>n\<bar>" by simp
  define k where "k = bits \<bar>n\<bar> - 53"
  have "(2::int) ^ k \<le> 2 ^ (bits \<bar>n\<bar> - 1)" by (simp add: k_def)
  then have k: "2 ^ k \<le> \<bar>n\<bar>" using bits_lower[OF pos] by linarith
  have "0 \<le> nearest_even \<bar>n\<bar> k \<and> nearest_even \<bar>n\<bar> k \<le> \<bar>n\<bar> + 2 ^ k"
    by (rule nearest_even_bounds) simp
  then have "\<bar>nearest_even \<bar>n\<bar> k\<bar> \<le> 2 ^ 61" using k assms by simp
  then show ?thesis by (simp add: round_int_def k_def abs_mult)
qed

lemma round64_dyadic:
  assumes "\<bar>n\<bar> \<le> 2 ^ 60" and "e \<le> 1074"
  shows "round64 (n * 2 ^ (1074 - e)) = dyadic (round_int n) e"
proof -
  define c where "c = 1074 - e"
  have abs: "\<bar>n * 2 ^ c\<bar> = \<bar>n\<bar> * 2 ^ c" by (simp add: abs_mult)
  have m: "nearest_even \<bar>n * 2 ^ c\<bar> (bits \<bar>n * 2 ^ c\<bar> - 53)
             = nearest_even \<bar>n\<bar> (bits \<bar>n\<bar> - 53) * 2 ^ c"
    unfolding abs by (rule round_shift) simp
  have s: "sgn (n * 2 ^ c) = sgn n" by (simp add: sgn_mult)
  have pc: "(2::int) ^ c \<le> 2 ^ 1074" by (rule power_increasing) (simp_all add: c_def)
  have "\<bar>round_int n\<bar> * 2 ^ c \<le> 2 ^ 61 * 2 ^ 1074"
    by (rule mult_mono[OF round_int_bound[OF assms(1)] pc]) simp_all
  also have "(2::int) ^ 61 * 2 ^ 1074 = 2 ^ (61 + 1074)" by (simp only: power_add)
  also have "\<dots> < (2::int) ^ 2098" by (rule power_strict_increasing) simp_all
  finally have small: "\<bar>round_int n\<bar> * 2 ^ c < 2 ^ 2098" .
  have "\<bar>round_int n\<bar> = nearest_even \<bar>n\<bar> (bits \<bar>n\<bar> - 53)"
    using nearest_even_bounds[of "\<bar>n\<bar>" "bits \<bar>n\<bar> - 53"]
    by (cases "n = 0") (simp_all add: round_int_def abs_mult bits_nonpos nearest_even_0)
  then have "\<not> 2 ^ 2098 \<le> nearest_even \<bar>n\<bar> (bits \<bar>n\<bar> - 53) * 2 ^ c" using small by simp
  then show ?thesis
    by (simp add: round64_def Let_def m s dyadic_def round_int_def c_def[symmetric] mult.assoc)
qed

lemma round64_whole:
  assumes "\<bar>w\<bar> \<le> 2 ^ 53"
  shows "round64 (w * 2 ^ 1074) = whole64 w"
proof -
  have "\<bar>w\<bar> \<le> 2 ^ 60" using assms by (rule order_trans) simp
  then show ?thesis
    using round64_dyadic[of w 0] round_int_exact[OF assms] by (simp add: whole64_def)
qed

lemma round_int_examples:
  "round_int (2 ^ 53 + 1) = 2 ^ 53"
  "round_int (2 ^ 53 + 3) = 2 ^ 53 + 4"
  "round_int (3602879701896397 + 7205759403792794) = 10808639105689192"
  "round_int (- 1) = - 1"
  by code_simp+

subsection \<open>Whole numbers in double precision\<close>

lemma neg64_whole: "neg64 (whole64 w) = whole64 (- w)"
  by (simp add: whole64_def dyadic_def)

lemma add64_whole:
  assumes "\<bar>x + y\<bar> \<le> 2 ^ 53"
  shows "add64 (whole64 x) (whole64 y) = whole64 (x + y)"
proof -
  have "add64 (whole64 x) (whole64 y) = round64 ((x + y) * 2 ^ 1074)"
    by (simp add: whole64_def dyadic_def distrib_right)
  then show ?thesis using round64_whole[OF assms] by simp
qed

lemma sub64_whole:
  assumes "\<bar>x - y\<bar> \<le> 2 ^ 53"
  shows "sub64 (whole64 x) (whole64 y) = whole64 (x - y)"
  using add64_whole[of x "- y"] assms by (simp add: sub64_def neg64_whole)

lemma whole64_eq_iff: "whole64 x = whole64 y \<longleftrightarrow> x = y"
  by (simp add: whole64_def dyadic_def)

lemma whole64_0: "whole64 0 = Finite 0"
  by (simp add: whole64_def dyadic_def)

lemma gt0_64_whole: "gt0_64 (whole64 x) \<longleftrightarrow> 0 < x"
  by (simp add: whole64_def dyadic_def zero_less_mult_iff)

lemma lt0_64_whole: "lt0_64 (whole64 x) \<longleftrightarrow> x < 0"
  by (simp add: whole64_def dyadic_def mult_less_0_iff)

lemma whole64_not_nan: "whole64 x \<noteq> NotANumber"
  by (simp add: whole64_def dyadic_def)

lemma to64_eq_iff: "to64 u = to64 v \<longleftrightarrow> u = v"
  by (cases u; cases v) (simp_all add: whole64_eq_iff whole64_not_nan whole64_not_nan[symmetric])

lemma inj_to64: "inj to64"
  by (simp add: inj_on_def to64_eq_iff)

lemma gt0_64_to64: "gt0_64 (to64 v) = js_gt0 v"
  by (cases v) (simp_all add: gt0_64_whole)

lemma lt0_64_to64: "lt0_64 (to64 v) = js_lt0 v"
  by (cases v) (simp_all add: lt0_64_whole)

lemma neg64_to64: "neg64 (to64 v) = to64 (js_neg v)"
  by (cases v) (simp_all add: neg64_whole)

lemma js_add64_to64:
  assumes "\<And>x. v = Some (Num x) \<Longrightarrow> \<bar>x + w\<bar> \<le> 2 ^ 53"
  shows "js_add64 (map_option to64 v) (whole64 w) = to64 (js_add v w)"
proof (cases v)
  case None
  then show ?thesis by simp
next
  case (Some u)
  then show ?thesis using assms by (cases u) (simp_all add: add64_whole)
qed

lemma js_sub64_to64:
  assumes "\<And>x. v = Some (Num x) \<Longrightarrow> \<bar>x - w\<bar> \<le> 2 ^ 53"
  shows "js_sub64 (map_option to64 v) (whole64 w) = to64 (js_sub v w)"
proof (cases v)
  case None
  then show ?thesis by simp
next
  case (Some u)
  then show ?thesis
    using assms by (cases u) (simp_all add: sub64_whole, simp add: sub64_def)
qed

lemma js_diff64_to64:
  assumes "\<And>x y. u = Some (Num x) \<Longrightarrow> v = Some (Num y) \<Longrightarrow> \<bar>x - y\<bar> \<le> 2 ^ 53"
  shows "js_diff64 (map_option to64 u) (map_option to64 v) = to64 (js_diff u v)"
proof (cases u)
  case None
  then show ?thesis by simp
next
  case u: (Some a)
  show ?thesis
  proof (cases v)
    case None
    then show ?thesis using u by (cases a) simp_all
  next
    case v: (Some b)
    show ?thesis
      using u v assms
      by (cases a; cases b) (simp_all add: sub64_whole, simp_all add: sub64_def whole64_def dyadic_def)
  qed
qed

lemma js_add_Num: "js_add v w = Num x \<Longrightarrow> \<exists>y. v = Some (Num y) \<and> x = y + w"
  by (cases "(v, w)" rule: js_add.cases) auto

lemma js_sub_Num: "js_sub v w = Num x \<Longrightarrow> \<exists>y. v = Some (Num y) \<and> x = y - w"
  by (cases "(v, w)" rule: js_sub.cases) auto

lemma js_diff_Num:
  "js_diff u v = Num x \<Longrightarrow> \<exists>y z. u = Some (Num y) \<and> v = Some (Num z) \<and> x = y - z"
  by (cases "(u, v)" rule: js_diff.cases) auto

subsection \<open>Rows and states in double precision\<close>

lemma map_of_row64: "map_of (row64_of r) k = map_option to64 (map_of r k)"
  by (induction r) (auto simp: row64_of_def)

lemma put_row64: "put k (to64 v) (row64_of r) = row64_of (put k v r)"
  by (induction r) (auto simp: row64_of_def)

lemma fold_totals64:
  "fold (\<lambda>i t. t(i \<mapsto> Finite 0)) ids t0 m = (if m \<in> set ids then Some (Finite 0) else t0 m)"
  by (induction ids arbitrary: t0) auto

lemma fold_row64:
  "fold (\<lambda>b r. if a \<noteq> b then put b (Finite 0) r else r) ids (row64_of r)
     = row64_of (fold (\<lambda>b r. if a \<noteq> b then put b (Num 0) r else r) ids r)"
proof (induction ids arbitrary: r)
  case Nil
  then show ?case by simp
next
  case (Cons b ids)
  have "put b (Finite 0) (row64_of r) = row64_of (put b (Num 0) r)"
    using put_row64[of b "Num 0" r] by (simp add: whole64_0)
  then show ?case using Cons.IH by (cases "a = b") simp_all
qed

lemma init_row64: "init_row64 ids a = row64_of (init_row ids a)"
  using fold_row64[of a ids "[]"] by (simp add: init_row64_def init_row_def row64_of_def)

lemma init64: "init64 ids = acc64_of (init ids)"
proof -
  have "init_totals64 ids = map_option to64 \<circ> init_totals ids"
    by (simp add: fun_eq_iff init_totals64_def fold_totals64 init_totals_apply whole64_0)
  moreover have "init_ledger64 ids = map_option row64_of \<circ> init_ledger ids"
    by (simp add: fun_eq_iff init_ledger64_def fold_ledger init_ledger_apply init_row64)
  ultimately show ?thesis by (simp add: init64_def init_def acc64_of_def)
qed

lemma within_init: "within 0 (init ids)"
proof -
  have t: "totals (init ids) = init_totals ids" by (simp add: init_def)
  have "net_total (init ids) m = 0" for m
    by (simp add: net_total_def t init_totals_apply)
  then show ?thesis
    by (auto simp: within_def t init_totals_apply cell_init split: if_splits)
qed

lemma within_mono:
  assumes "within s st" and "s \<le> s'"
  shows "within s' st"
  unfolding within_def
proof (intro conjI allI impI)
  show "0 \<le> s'" using assms unfolding within_def by linarith
next
  fix m x assume "totals st m = Some (Num x)"
  then have "\<bar>x\<bar> \<le> s" using assms(1) unfolding within_def by blast
  then show "\<bar>x\<bar> \<le> s'" using assms(2) by linarith
next
  fix a b x assume "cell (ledger st) a b = Some (Num x)"
  then have "\<bar>x\<bar> \<le> s" using assms(1) unfolding within_def by blast
  then show "\<bar>x\<bar> \<le> s'" using assms(2) by linarith
next
  fix a b :: 'a and x y
  assume "a \<noteq> b" "cell (ledger st) a b = Some (Num x)" "cell (ledger st) b a = Some (Num y)"
  then have "\<bar>x\<bar> + \<bar>y\<bar> \<le> s" using assms(1) unfolding within_def by blast
  then show "\<bar>x\<bar> + \<bar>y\<bar> \<le> s'" using assms(2) by linarith
next
  fix S :: "'a set" assume "finite S"
  then have "\<bar>\<Sum>m\<in>S. net_total st m\<bar> \<le> s" using assms(1) unfolding within_def by blast
  then show "\<bar>\<Sum>m\<in>S. net_total st m\<bar> \<le> s'" using assms(2) by linarith
qed

lemma within_transfer:
  assumes bal: "\<bar>\<Sum>m\<in>S. net_total st m\<bar> \<le> s"
    and N: "\<And>m. net_total st' m
               = net_total st m + (if m = p then a else 0) + (if m = q then b else 0)"
    and a: "a = 0 \<or> a = amt" and b: "b = 0 \<or> b = - amt" and fin: "finite S"
  shows "\<bar>\<Sum>m\<in>S. net_total st' m\<bar> \<le> s + \<bar>amt\<bar>"
proof -
  have "(\<Sum>m\<in>S. net_total st' m)
          = (\<Sum>m\<in>S. net_total st m) + (if p \<in> S then a else 0) + (if q \<in> S then b else 0)"
    using fin by (simp add: N sum.distrib sum.delta)
  then show ?thesis using bal a b by (auto split: if_splits)
qed

subsection \<open>Steps 3 and 4 in double precision\<close>

lemma apply_split_refines:
  assumes w: "within s st" and b: "s + \<bar>amount sp\<bar> \<le> 2 ^ 53"
  shows "apply_split64 payer (acc64_of st) (split64_of sp)
           = map_sum id acc64_of (apply_split payer st sp)"
proof (cases "userId sp = payer \<or> paid sp")
  case True
  then show ?thesis by (auto simp: apply_split64_def apply_split_def split64_of_def)
next
  case False
  have tb: "\<bar>x + amount sp\<bar> \<le> 2 ^ 53 \<and> \<bar>x - amount sp\<bar> \<le> 2 ^ 53"
    if "totals st m = Some (Num x)" for m x
  proof -
    have "\<bar>x\<bar> \<le> s" using w that unfolding within_def by blast
    then show ?thesis using b by linarith
  qed
  have cb: "\<bar>x + amount sp\<bar> \<le> 2 ^ 53" if "cell (ledger st) a c = Some (Num x)" for a c x
  proof -
    have "\<bar>x\<bar> \<le> s" using w that unfolding within_def by blast
    then show ?thesis using b by linarith
  qed
  have t1: "js_add64 (map_option to64 (totals st payer)) (whole64 (amount sp))
              = to64 (js_add (totals st payer) (amount sp))"
    by (rule js_add64_to64) (use tb in blast)
  have t2: "js_sub64 (map_option to64 (totals st (userId sp))) (whole64 (amount sp))
              = to64 (js_sub (totals st (userId sp)) (amount sp))"
    by (rule js_sub64_to64) (use tb in blast)
  show ?thesis
  proof (cases "ledger st (userId sp)")
    case None
    then show ?thesis
      using False
      by (simp add: apply_split64_def apply_split_def split64_of_def acc64_of_def Let_def)
  next
    case (Some r)
    have "cell (ledger st) (userId sp) payer = map_of r payer" using Some by (simp add: cell_def)
    then have c: "js_add64 (map_option to64 (map_of r payer)) (whole64 (amount sp))
              = to64 (js_add (map_of r payer) (amount sp))"
      using cb[of "userId sp" payer] by (intro js_add64_to64) simp
    show ?thesis
      using False Some t1 t2 c
      by (simp add: apply_split64_def apply_split_def split64_of_def acc64_of_def Let_def
          fun_eq_iff map_of_row64 put_row64)
  qed
qed

lemma apply_split_within:
  assumes w: "within s st" and r: "apply_split payer st sp = Inr st'"
  shows "within (s + \<bar>amount sp\<bar>) st'"
proof (cases "userId sp = payer \<or> paid sp")
  case True
  then have "st' = st" using r by (simp add: apply_split_def)
  then show ?thesis using within_mono[OF w, of "s + \<bar>amount sp\<bar>"] by simp
next
  case False
  define d where "d = userId sp"
  define amt where "amt = amount sp"
  have ne: "d \<noteq> payer" using False by (simp add: d_def)
  from r False obtain row where row: "ledger st d = Some row"
    and t': "totals st' = ((totals st)(payer \<mapsto> js_add (totals st payer) amt))
                            (d \<mapsto> js_sub (totals st d) amt)"
    and l': "ledger st' = (ledger st)(d \<mapsto> put payer (js_add (map_of row payer) amt) row)"
    using ne by (auto simp: apply_split_def Let_def d_def amt_def split: option.splits)
  have c': "cell (ledger st') a c
              = (if a = d \<and> c = payer then Some (js_add (cell (ledger st) d payer) amt)
                 else cell (ledger st) a c)" for a c
    using row by (simp add: l' cell_def map_of_put)
  have s0: "0 \<le> s" and tot: "\<And>m x. totals st m = Some (Num x) \<Longrightarrow> \<bar>x\<bar> \<le> s"
    and cel: "\<And>a c x. cell (ledger st) a c = Some (Num x) \<Longrightarrow> \<bar>x\<bar> \<le> s"
    and pair: "\<And>a c x y. a \<noteq> c \<Longrightarrow> cell (ledger st) a c = Some (Num x)
                 \<Longrightarrow> cell (ledger st) c a = Some (Num y) \<Longrightarrow> \<bar>x\<bar> + \<bar>y\<bar> \<le> s"
    and bal: "\<And>S. finite S \<Longrightarrow> \<bar>\<Sum>m\<in>S. net_total st m\<bar> \<le> s"
    using w unfolding within_def by blast+
  define ta where "ta = (case totals st payer of Some (Num _) \<Rightarrow> amt | _ \<Rightarrow> 0)"
  define tb where "tb = (case totals st d of Some (Num _) \<Rightarrow> - amt | _ \<Rightarrow> 0)"
  have N: "net_total st' m = net_total st m + (if m = payer then ta else 0) + (if m = d then tb else 0)"
    for m
    using ne by (auto simp: net_total_def t' ta_def tb_def split: option.splits jsnum.splits)
  have B: "\<bar>\<Sum>m\<in>S. net_total st' m\<bar> \<le> s + \<bar>amt\<bar>" if "finite S" for S
  proof (rule within_transfer[OF bal[OF that] N _ _ that])
    show "ta = 0 \<or> ta = amt" by (auto simp: ta_def split: option.splits jsnum.splits)
    show "tb = 0 \<or> tb = - amt" by (auto simp: tb_def split: option.splits jsnum.splits)
  qed
  have T: "\<bar>x\<bar> \<le> s + \<bar>amt\<bar>" if h: "totals st' m = Some (Num x)" for m x
  proof -
    consider "m = d" | "m \<noteq> d" "m = payer" | "m \<noteq> d" "m \<noteq> payer" by blast
    then show ?thesis
    proof cases
      case 1
      then obtain y where "totals st d = Some (Num y)" "x = y - amt"
        using h js_sub_Num[of "totals st d" amt x] by (auto simp: t')
      then show ?thesis using tot[of d y] by linarith
    next
      case 2
      then obtain y where "totals st payer = Some (Num y)" "x = y + amt"
        using h js_add_Num[of "totals st payer" amt x] by (auto simp: t')
      then show ?thesis using tot[of payer y] by linarith
    next
      case 3
      then show ?thesis using h tot[of m x] by (simp add: t')
    qed
  qed
  have C: "\<bar>x\<bar> \<le> s + \<bar>amt\<bar>" if h: "cell (ledger st') a c = Some (Num x)" for a c x
  proof (cases "a = d \<and> c = payer")
    case True
    then obtain y where "cell (ledger st) d payer = Some (Num y)" "x = y + amt"
      using h js_add_Num[of "cell (ledger st) d payer" amt x] by (auto simp: c')
    then show ?thesis using cel[of d payer y] by linarith
  next
    case False
    then show ?thesis using h cel[of a c x] by (auto simp: c' split: if_splits)
  qed
  have P: "\<bar>x\<bar> + \<bar>y\<bar> \<le> s + \<bar>amt\<bar>"
    if h: "a \<noteq> c" "cell (ledger st') a c = Some (Num x)" "cell (ledger st') c a = Some (Num y)"
    for a c x y
  proof -
    consider "a = d" "c = payer" | "c = d" "a = payer"
      | "\<not> (a = d \<and> c = payer)" "\<not> (c = d \<and> a = payer)" by blast
    then show ?thesis
    proof cases
      case 1
      then obtain z where z: "cell (ledger st) d payer = Some (Num z)" "x = z + amt"
        using h(2) js_add_Num[of "cell (ledger st) d payer" amt x] by (auto simp: c')
      have "cell (ledger st) payer d = Some (Num y)" using h(3) 1 ne by (simp add: c')
      then show ?thesis using pair[OF ne z(1), of y] z(2) by linarith
    next
      case 2
      then obtain z where z: "cell (ledger st) d payer = Some (Num z)" "y = z + amt"
        using h(3) js_add_Num[of "cell (ledger st) d payer" amt y] by (auto simp: c')
      have "cell (ledger st) payer d = Some (Num x)" using h(2) 2 ne by (simp add: c')
      then show ?thesis using pair[OF ne z(1), of x] z(2) by linarith
    next
      case 3
      then show ?thesis using h pair[of a c x y] by (auto simp: c' split: if_splits)
    qed
  qed
  show ?thesis
    unfolding within_def using s0 T C P B by (auto simp: amt_def)
qed

lemma for_of_refines:
  fixes cost :: "'a \<Rightarrow> int"
  assumes "\<And>s t x. x \<in> set xs \<Longrightarrow> I s t \<Longrightarrow> s + cost x \<le> B \<Longrightarrow>
             f64 (emb t) (g x) = map_sum id emb (f t x)
             \<and> (\<forall>t'. f t x = Inr t' \<longrightarrow> I (s + cost x) t')"
    and "I s t" and "s + sum_list (map cost xs) \<le> B" and "\<And>x. x \<in> set xs \<Longrightarrow> 0 \<le> cost x"
  shows "for_of f64 (map g xs) (emb t) = map_sum id emb (for_of f xs t)
         \<and> (\<forall>t'. for_of f xs t = Inr t' \<longrightarrow> I (s + sum_list (map cost xs)) t')"
  using assms
proof (induction xs arbitrary: s t)
  case Nil
  then show ?case by simp
next
  case (Cons x xs)
  have nn: "0 \<le> sum_list (map cost xs)"
    using Cons.prems(4) by (intro sum_list_nonneg) auto
  have b: "s + cost x \<le> B" using Cons.prems(3) nn by simp
  have step: "f64 (emb t) (g x) = map_sum id emb (f t x)
              \<and> (\<forall>t'. f t x = Inr t' \<longrightarrow> I (s + cost x) t')"
    by (rule Cons.prems(1)) (use Cons.prems(2) b in simp_all)
  have e: "f64 (emb t) (g x) = map_sum id emb (f t x)" using step by (rule conjunct1)
  have i: "\<And>t'. f t x = Inr t' \<Longrightarrow> I (s + cost x) t'" using step by blast
  show ?case
  proof (cases "f t x")
    case (Inl err)
    then have "f64 (emb t) (g x) = Inl err" using e by simp
    then show ?thesis using Inl by simp
  next
    case (Inr t')
    have e': "f64 (emb t) (g x) = Inr (emb t')" using e Inr by simp
    have "for_of f64 (map g xs) (emb t') = map_sum id emb (for_of f xs t')
         \<and> (\<forall>u. for_of f xs t' = Inr u \<longrightarrow> I (s + cost x + sum_list (map cost xs)) u)"
    proof (rule Cons.IH)
      show "I (s + cost x) t'" by (rule i[OF Inr])
      show "s + cost x + sum_list (map cost xs) \<le> B" using Cons.prems(3) by simp
    qed (use Cons.prems(1,4) in auto)
    then show ?thesis using Inr e' by (simp add: add.assoc id_def)
  qed
qed

lemma apply_expense_refines:
  assumes "within s st" and "s + expense_amount e \<le> 2 ^ 53"
  shows "apply_expense64 (acc64_of st) (expense64_of e) = map_sum id acc64_of (apply_expense st e)
         \<and> (\<forall>st'. apply_expense st e = Inr st' \<longrightarrow> within (s + expense_amount e) st')"
  unfolding apply_expense64_def apply_expense_def expense_amount_def
proof -
  have "for_of (apply_split64 (paidByUserId e)) (map split64_of (splits e)) (acc64_of st)
          = map_sum id acc64_of (for_of (apply_split (paidByUserId e)) (splits e) st)
        \<and> (\<forall>t'. for_of (apply_split (paidByUserId e)) (splits e) st = Inr t'
              \<longrightarrow> within (s + sum_list (map (\<lambda>sp. \<bar>amount sp\<bar>) (splits e))) t')"
  proof (rule for_of_refines[where I = within and B = "2 ^ 53"])
    show "within s st" by (rule assms(1))
    show "s + (\<Sum>sp\<leftarrow>splits e. \<bar>amount sp\<bar>) \<le> 2 ^ 53"
      using assms(2) by (simp add: expense_amount_def)
  qed (use apply_split_refines apply_split_within in auto)
  then show "for_of (apply_split64 (paidByUserId64 (expense64_of e))) (splits64 (expense64_of e))
               (acc64_of st)
          = map_sum id acc64_of (for_of (apply_split (paidByUserId e)) (splits e) st)
        \<and> (\<forall>st'. for_of (apply_split (paidByUserId e)) (splits e) st = Inr st'
              \<longrightarrow> within (s + (\<Sum>sp\<leftarrow>splits e. \<bar>amount sp\<bar>)) st')"
    by (simp add: expense64_of_def)
qed

lemma expense_amount_nonneg: "0 \<le> expense_amount e"
  unfolding expense_amount_def by (intro sum_list_nonneg) auto

lemma apply_expenses_refines:
  assumes "within s st" and "s + sum_list (map expense_amount es) \<le> 2 ^ 53"
  shows "apply_expenses64 (acc64_of st) (map expense64_of es)
           = map_sum id acc64_of (apply_expenses st es)
         \<and> (\<forall>st'. apply_expenses st es = Inr st'
               \<longrightarrow> within (s + sum_list (map expense_amount es)) st')"
  unfolding apply_expenses64_def apply_expenses_def
proof (rule for_of_refines[where I = within and B = "2 ^ 53"])
  show "within s st" by (rule assms(1))
  show "s + sum_list (map expense_amount es) \<le> 2 ^ 53" by (rule assms(2))
qed (use apply_expense_refines expense_amount_nonneg in auto)

lemma apply_settlement_refines:
  assumes w: "within s st" and b: "s + \<bar>s_amount x\<bar> \<le> 2 ^ 53"
  shows "apply_settlement64 (acc64_of st) (settlement64_of x)
           = map_sum id acc64_of (apply_settlement st x)"
proof -
  define p where "p = s_paidByUserId x"
  define q where "q = s_receivedByUserId x"
  define amt where "amt = s_amount x"
  define t1 where "t1 = (totals st)(p \<mapsto> js_add (totals st p) amt)"
  have tb: "\<bar>y\<bar> \<le> s" if "totals st m = Some (Num y)" for m y
    using w that unfolding within_def by blast
  have cb: "\<bar>y\<bar> \<le> s" if "cell (ledger st) a c = Some (Num y)" for a c y
    using w that unfolding within_def by blast
  have a1: "js_add64 (map_option to64 (totals st p)) (whole64 amt) = to64 (js_add (totals st p) amt)"
  proof (rule js_add64_to64)
    fix y assume "totals st p = Some (Num y)"
    then show "\<bar>y + amt\<bar> \<le> 2 ^ 53" using tb[of p y] b by (simp add: amt_def)
  qed
  have a2: "js_sub64 (map_option to64 (t1 q)) (whole64 amt) = to64 (js_sub (t1 q) amt)"
  proof (rule js_sub64_to64)
    fix y assume y: "t1 q = Some (Num y)"
    show "\<bar>y - amt\<bar> \<le> 2 ^ 53"
    proof (cases "q = p")
      case True
      then obtain z where "totals st p = Some (Num z)" "y = z + amt"
        using y js_add_Num[of "totals st p" amt y] by (auto simp: t1_def)
      then show ?thesis using tb[of p z] b by (simp add: amt_def)
    next
      case False
      then have "totals st q = Some (Num y)" using y by (simp add: t1_def)
      then show ?thesis using tb[of q y] b by (simp add: amt_def)
    qed
  qed
  have t1_64: "(map_option to64 \<circ> totals st)(p \<mapsto> js_add64 ((map_option to64 \<circ> totals st) p) (whole64 amt))
                 = map_option to64 \<circ> t1"
    using a1 by (simp add: t1_def fun_eq_iff)
  show ?thesis
  proof (cases "ledger st p")
    case None
    then show ?thesis
      by (simp add: apply_settlement64_def apply_settlement_def settlement64_of_def acc64_of_def
          Let_def p_def)
  next
    case (Some r)
    have "cell (ledger st) p q = map_of r q" using Some by (simp add: cell_def)
    then have c: "js_sub64 (map_option to64 (map_of r q)) (whole64 amt)
                    = to64 (js_sub (map_of r q) amt)"
      using cb[of p q] b by (intro js_sub64_to64) (simp add: amt_def)
    have "apply_settlement64 (acc64_of st) (settlement64_of x)
            = Inr \<lparr>totals64 = (map_option to64 \<circ> t1)(q \<mapsto> js_sub64 ((map_option to64 \<circ> t1) q) (whole64 amt)),
                   ledger64 = (map_option row64_of \<circ> ledger st)(p \<mapsto>
                      put q (js_sub64 (map_of (row64_of r) q) (whole64 amt)) (row64_of r))\<rparr>"
      using Some t1_64
      by (simp add: apply_settlement64_def settlement64_of_def acc64_of_def Let_def
          p_def[symmetric] q_def[symmetric] amt_def[symmetric])
    moreover have "apply_settlement st x
            = Inr \<lparr>totals = t1(q \<mapsto> js_sub (t1 q) amt),
                   ledger = (ledger st)(p \<mapsto> put q (js_sub (map_of r q) amt) r)\<rparr>"
      using Some
      by (simp add: apply_settlement_def Let_def p_def[symmetric] q_def[symmetric]
          amt_def[symmetric] t1_def)
    ultimately show ?thesis
      using a2 c by (simp add: acc64_of_def fun_eq_iff map_of_row64 put_row64)
  qed
qed

lemma apply_settlement_within:
  assumes w: "within s st" and r: "apply_settlement st x = Inr st'"
  shows "within (s + \<bar>s_amount x\<bar>) st'"
proof -
  define p where "p = s_paidByUserId x"
  define q where "q = s_receivedByUserId x"
  define amt where "amt = s_amount x"
  define t1 where "t1 = (totals st)(p \<mapsto> js_add (totals st p) amt)"
  from r obtain row where row: "ledger st p = Some row"
    and t': "totals st' = t1(q \<mapsto> js_sub (t1 q) amt)"
    and l': "ledger st' = (ledger st)(p \<mapsto> put q (js_sub (map_of row q) amt) row)"
    by (auto simp: apply_settlement_def Let_def p_def q_def amt_def t1_def split: option.splits)
  have c': "cell (ledger st') a c
              = (if a = p \<and> c = q then Some (js_sub (cell (ledger st) p q) amt)
                 else cell (ledger st) a c)" for a c
    using row by (simp add: l' cell_def map_of_put)
  have s0: "0 \<le> s" and tot: "\<And>m y. totals st m = Some (Num y) \<Longrightarrow> \<bar>y\<bar> \<le> s"
    and cel: "\<And>a c y. cell (ledger st) a c = Some (Num y) \<Longrightarrow> \<bar>y\<bar> \<le> s"
    and pair: "\<And>a c y z. a \<noteq> c \<Longrightarrow> cell (ledger st) a c = Some (Num y)
                 \<Longrightarrow> cell (ledger st) c a = Some (Num z) \<Longrightarrow> \<bar>y\<bar> + \<bar>z\<bar> \<le> s"
    and bal: "\<And>S. finite S \<Longrightarrow> \<bar>\<Sum>m\<in>S. net_total st m\<bar> \<le> s"
    using w unfolding within_def by blast+
  define ta where "ta = (case totals st p of Some (Num _) \<Rightarrow> amt | _ \<Rightarrow> 0)"
  define tb where "tb = (case t1 q of Some (Num _) \<Rightarrow> - amt | _ \<Rightarrow> 0)"
  have N: "net_total st' m = net_total st m + (if m = p then ta else 0) + (if m = q then tb else 0)"
    for m
    by (auto simp: net_total_def t' t1_def ta_def tb_def split: option.splits jsnum.splits)
  have B: "\<bar>\<Sum>m\<in>S. net_total st' m\<bar> \<le> s + \<bar>amt\<bar>" if "finite S" for S
  proof (rule within_transfer[OF bal[OF that] N _ _ that])
    show "ta = 0 \<or> ta = amt" by (auto simp: ta_def split: option.splits jsnum.splits)
    show "tb = 0 \<or> tb = - amt" by (auto simp: tb_def split: option.splits jsnum.splits)
  qed
  have T: "\<bar>y\<bar> \<le> s + \<bar>amt\<bar>" if h: "totals st' m = Some (Num y)" for m y
  proof -
    consider "m = q" "q = p" | "m = q" "q \<noteq> p" | "m \<noteq> q" "m = p" | "m \<noteq> q" "m \<noteq> p"
      by blast
    then show ?thesis
    proof cases
      case 1
      then obtain z where "t1 q = Some (Num z)" "y = z - amt"
        using h js_sub_Num[of "t1 q" amt y] by (auto simp: t')
      moreover then obtain u where "totals st p = Some (Num u)" "z = u + amt"
        using 1 js_add_Num[of "totals st p" amt z] by (auto simp: t1_def)
      ultimately show ?thesis using tot[of p u] by linarith
    next
      case 2
      then obtain z where "t1 q = Some (Num z)" "y = z - amt"
        using h js_sub_Num[of "t1 q" amt y] by (auto simp: t')
      then show ?thesis using 2 tot[of q z] by (simp add: t1_def)
    next
      case 3
      then obtain z where "totals st p = Some (Num z)" "y = z + amt"
        using h js_add_Num[of "totals st p" amt y] by (auto simp: t' t1_def)
      then show ?thesis using tot[of p z] by linarith
    next
      case 4
      then show ?thesis using h tot[of m y] by (simp add: t' t1_def)
    qed
  qed
  have C: "\<bar>y\<bar> \<le> s + \<bar>amt\<bar>" if h: "cell (ledger st') a c = Some (Num y)" for a c y
  proof (cases "a = p \<and> c = q")
    case True
    then obtain z where "cell (ledger st) p q = Some (Num z)" "y = z - amt"
      using h js_sub_Num[of "cell (ledger st) p q" amt y] by (auto simp: c')
    then show ?thesis using cel[of p q z] by linarith
  next
    case False
    then show ?thesis using h cel[of a c y] by (auto simp: c' split: if_splits)
  qed
  have P: "\<bar>y\<bar> + \<bar>z\<bar> \<le> s + \<bar>amt\<bar>"
    if h: "a \<noteq> c" "cell (ledger st') a c = Some (Num y)" "cell (ledger st') c a = Some (Num z)"
    for a c y z
  proof -
    consider "a = p" "c = q" | "c = p" "a = q"
      | "\<not> (a = p \<and> c = q)" "\<not> (c = p \<and> a = q)" by blast
    then show ?thesis
    proof cases
      case 1
      then have ne: "p \<noteq> q" using h(1) by simp
      obtain u where u: "cell (ledger st) p q = Some (Num u)" "y = u - amt"
        using 1 h(2) js_sub_Num[of "cell (ledger st) p q" amt y] by (auto simp: c')
      have "cell (ledger st) q p = Some (Num z)" using h(3) 1 ne by (simp add: c')
      then show ?thesis using pair[OF ne u(1), of z] u(2) by linarith
    next
      case 2
      then have ne: "p \<noteq> q" using h(1) by simp
      obtain u where u: "cell (ledger st) p q = Some (Num u)" "z = u - amt"
        using 2 h(3) js_sub_Num[of "cell (ledger st) p q" amt z] by (auto simp: c')
      have "cell (ledger st) q p = Some (Num y)" using h(2) 2 ne by (simp add: c')
      then show ?thesis using pair[OF ne u(1), of y] u(2) by linarith
    next
      case 3
      then show ?thesis using h pair[of a c y z] by (auto simp: c' split: if_splits)
    qed
  qed
  show ?thesis
    unfolding within_def using s0 T C P B by (auto simp: amt_def)
qed

lemma apply_settlements_refines:
  assumes "within s st" and "s + sum_list (map (\<lambda>x. \<bar>s_amount x\<bar>) ss) \<le> 2 ^ 53"
  shows "apply_settlements64 (acc64_of st) (map settlement64_of ss)
           = map_sum id acc64_of (apply_settlements st ss)
         \<and> (\<forall>st'. apply_settlements st ss = Inr st'
               \<longrightarrow> within (s + sum_list (map (\<lambda>x. \<bar>s_amount x\<bar>) ss)) st')"
  unfolding apply_settlements64_def apply_settlements_def
proof (rule for_of_refines[where I = within and B = "2 ^ 53"])
  show "within s st" by (rule assms(1))
  show "s + sum_list (map (\<lambda>x. \<bar>s_amount x\<bar>) ss) \<le> 2 ^ 53" by (rule assms(2))
qed (use apply_settlement_refines apply_settlement_within in auto)

lemma total_amount_nonneg: "0 \<le> total_amount es ss"
  unfolding total_amount_def
  by (intro add_nonneg_nonneg sum_list_nonneg) (auto simp: expense_amount_nonneg)

lemma before_netting_refines:
  assumes "total_amount es ss \<le> 2 ^ 53"
  shows "before_netting64 ids (map expense64_of es) (map settlement64_of ss)
           = map_sum id acc64_of (before_netting ids es ss)
         \<and> (\<forall>st. before_netting ids es ss = Inr st \<longrightarrow> within (total_amount es ss) st)"
proof -
  have nn: "0 \<le> sum_list (map (\<lambda>x. \<bar>s_amount x\<bar>) ss)" by (intro sum_list_nonneg) auto
  have e: "apply_expenses64 (acc64_of (init ids)) (map expense64_of es)
             = map_sum id acc64_of (apply_expenses (init ids) es)"
    and we: "\<And>st. apply_expenses (init ids) es = Inr st
               \<Longrightarrow> within (sum_list (map expense_amount es)) st"
    using apply_expenses_refines[OF within_init, of es ids] assms nn
    by (auto simp: total_amount_def)
  show ?thesis
  proof (cases "apply_expenses (init ids) es")
    case (Inl err)
    then show ?thesis using e by (simp add: before_netting64_def before_netting_def init64)
  next
    case (Inr st)
    show ?thesis
      using apply_settlements_refines[OF we[OF Inr], of ss] assms e Inr
      by (simp add: before_netting64_def before_netting_def init64 total_amount_def)
  qed
qed

subsection \<open>Steps 5 and 6 in double precision\<close>

lemma for_of_refines_inv:
  assumes "\<And>t x. x \<in> set xs \<Longrightarrow> P t \<Longrightarrow>
             f64 (emb t) x = map_sum id emb (f t x) \<and> (\<forall>t'. f t x = Inr t' \<longrightarrow> P t')"
    and "P t"
  shows "for_of f64 xs (emb t) = map_sum id emb (for_of f xs t)
         \<and> (\<forall>t'. for_of f xs t = Inr t' \<longrightarrow> P t')"
  using assms
proof (induction xs arbitrary: t)
  case Nil
  then show ?case by simp
next
  case (Cons x xs)
  have step: "f64 (emb t) x = map_sum id emb (f t x) \<and> (\<forall>t'. f t x = Inr t' \<longrightarrow> P t')"
    by (rule Cons.prems(1)) (use Cons.prems(2) in simp_all)
  have e: "f64 (emb t) x = map_sum id emb (f t x)" using step by (rule conjunct1)
  show ?case
  proof (cases "f t x")
    case (Inl err)
    then have "f64 (emb t) x = Inl err" using e by simp
    then show ?thesis using Inl by simp
  next
    case (Inr t')
    have e': "f64 (emb t) x = Inr (emb t')" using e Inr by simp
    have "P t'" using step Inr by blast
    then have "for_of f64 xs (emb t') = map_sum id emb (for_of f xs t')
         \<and> (\<forall>u. for_of f xs t' = Inr u \<longrightarrow> P u)"
      by (intro Cons.IH) (use Cons.prems(1) in auto)
    then show ?thesis using Inr e' by (simp add: id_def)
  qed
qed

lemma put_row64_0: "put k (Finite 0) (row64_of r) = row64_of (put k (Num 0) r)"
  using put_row64[of k "Num 0" r] by (simp add: whole64_0)

lemma within_diff:
  assumes "within s st" and "a \<noteq> c"
    and "js_diff (cell (ledger st) a c) (cell (ledger st) c a) = Num z"
  shows "\<bar>z\<bar> \<le> s"
proof -
  obtain p q where pq: "cell (ledger st) a c = Some (Num p)" "cell (ledger st) c a = Some (Num q)"
    "z = p - q"
    using js_diff_Num[OF assms(3)] by blast
  have "\<bar>p\<bar> + \<bar>q\<bar> \<le> s" using assms(1,2) pq(1,2) unfolding within_def by blast
  then show ?thesis using pq(3) by linarith
qed

lemma net_pair_refines:
  assumes w: "within s st" and b: "s \<le> 2 ^ 53"
  shows "net_pair64 a (acc64_of st) c = map_sum id acc64_of (net_pair a st c)"
proof (cases "c \<le> a")
  case True
  then show ?thesis by (simp add: net_pair64_def net_pair_def)
next
  case False
  then have ne: "a \<noteq> c" by auto
  show ?thesis
  proof (cases "ledger st a")
    case None
    then show ?thesis using False by (simp add: net_pair64_def net_pair_def acc64_of_def)
  next
    case ra: (Some ra)
    show ?thesis
    proof (cases "ledger st c")
      case None
      then show ?thesis using False ra by (simp add: net_pair64_def net_pair_def acc64_of_def)
    next
      case rc: (Some rc)
      define d where "d = js_diff (map_of ra c) (map_of rc a)"
      have cells: "cell (ledger st) a c = map_of ra c" "cell (ledger st) c a = map_of rc a"
        using ra rc by (simp_all add: cell_def)
      have d64: "js_diff64 (map_option to64 (map_of ra c)) (map_option to64 (map_of rc a)) = to64 d"
        unfolding d_def
      proof (rule js_diff64_to64)
        fix x y assume "map_of ra c = Some (Num x)" "map_of rc a = Some (Num y)"
        then have "\<bar>x - y\<bar> \<le> s"
          using within_diff[OF w ne, of "x - y"] by (simp add: cells)
        then show "\<bar>x - y\<bar> \<le> 2 ^ 53" using b by linarith
      qed
      show ?thesis
        using False ra rc d64
        by (simp add: net_pair64_def net_pair_def acc64_of_def Let_def d_def[symmetric]
            map_of_row64 gt0_64_to64 lt0_64_to64 neg64_to64 put_row64 put_row64_0 fun_eq_iff)
    qed
  qed
qed

lemma net_fwd_bwd_bound:
  assumes "\<And>z. d = Num z \<Longrightarrow> \<bar>z\<bar> \<le> s" and "0 \<le> s"
  shows "\<exists>v u. net_fwd d = Num v \<and> net_bwd d = Num u \<and> \<bar>v\<bar> + \<bar>u\<bar> \<le> s"
  using assms by (cases d) (auto simp: net_fwd_def net_bwd_def)

lemma net_pair_within:
  assumes w: "within s st" and r: "net_pair a st c = Inr st'"
  shows "within s st'"
proof (cases "c \<le> a")
  case True
  then show ?thesis using w r by (simp add: net_pair_skip)
next
  case False
  then have lt: "a < c" and ne: "a \<noteq> c" by auto
  define d where "d = js_diff (cell (ledger st) a c) (cell (ledger st) c a)"
  have s0: "0 \<le> s" and tot: "\<And>m y. totals st m = Some (Num y) \<Longrightarrow> \<bar>y\<bar> \<le> s"
    and cel: "\<And>x y v. cell (ledger st) x y = Some (Num v) \<Longrightarrow> \<bar>v\<bar> \<le> s"
    and pair: "\<And>x y v u. x \<noteq> y \<Longrightarrow> cell (ledger st) x y = Some (Num v)
                 \<Longrightarrow> cell (ledger st) y x = Some (Num u) \<Longrightarrow> \<bar>v\<bar> + \<bar>u\<bar> \<le> s"
    using w unfolding within_def by blast+
  have new: "cell (ledger st') a c = Some (net_fwd d)" "cell (ledger st') c a = Some (net_bwd d)"
    using net_pair_result[OF lt r] by (simp_all add: pair_state_def norm_pair_def d_def)
  have old: "cell (ledger st') x y = cell (ledger st) x y"
    if "\<not> (x = a \<and> y = c)" "\<not> (x = c \<and> y = a)" for x y
    using net_pair_frame[OF r that] .
  obtain v u where vu: "net_fwd d = Num v" "net_bwd d = Num u" "\<bar>v\<bar> + \<bar>u\<bar> \<le> s"
    using net_fwd_bwd_bound[of d s] within_diff[OF w ne] s0 unfolding d_def by blast
  have T: "\<bar>y\<bar> \<le> s" if "totals st' m = Some (Num y)" for m y
    using that tot[of m y] net_pair_totals[OF r] by simp
  have B: "\<bar>\<Sum>m\<in>S. net_total st' m\<bar> \<le> s" if "finite S" for S
    using w that net_pair_totals[OF r] unfolding within_def net_total_def by simp
  have C: "\<bar>y\<bar> \<le> s" if h: "cell (ledger st') x z = Some (Num y)" for x z y
  proof -
    consider "x = a" "z = c" | "x = c" "z = a"
      | "\<not> (x = a \<and> z = c)" "\<not> (x = c \<and> z = a)" by blast
    then show ?thesis
    proof cases
      case 1
      then show ?thesis using h new(1) vu by simp
    next
      case 2
      then show ?thesis using h new(2) vu by simp
    next
      case 3
      then show ?thesis using h old[OF 3] cel[of x z y] by simp
    qed
  qed
  have P: "\<bar>y\<bar> + \<bar>y'\<bar> \<le> s"
    if h: "x \<noteq> z" "cell (ledger st') x z = Some (Num y)" "cell (ledger st') z x = Some (Num y')"
    for x z y y'
  proof -
    consider "x = a" "z = c" | "x = c" "z = a"
      | "\<not> (x = a \<and> z = c)" "\<not> (x = c \<and> z = a)" by blast
    then show ?thesis
    proof cases
      case 1
      then show ?thesis using h new vu by simp
    next
      case 2
      then show ?thesis using h new vu by simp
    next
      case 3
      then have "\<not> (z = a \<and> x = c)" "\<not> (z = c \<and> x = a)" by auto
      then show ?thesis using h old[OF 3] old[of z x] pair[of x z y y'] by simp
    qed
  qed
  show ?thesis unfolding within_def using s0 T C P B by auto
qed

lemma net_off_refines:
  assumes w: "within s st" and b: "s \<le> 2 ^ 53"
  shows "net_off64 ids (acc64_of st) = map_sum id acc64_of (net_off ids st)"
proof -
  have inner: "for_of (net_pair64 a) ids (acc64_of t) = map_sum id acc64_of (for_of (net_pair a) ids t)
      \<and> (\<forall>t'. for_of (net_pair a) ids t = Inr t' \<longrightarrow> within s t')"
    if "within s t" for a t
    by (rule for_of_refines_inv[where P = "within s"])
      (use that b net_pair_refines net_pair_within in auto)
  have "for_of (\<lambda>st' a. for_of (net_pair64 a) ids st') ids (acc64_of st)
          = map_sum id acc64_of (for_of (\<lambda>st' a. for_of (net_pair a) ids st') ids st)
        \<and> (\<forall>t'. for_of (\<lambda>st' a. for_of (net_pair a) ids st') ids st = Inr t' \<longrightarrow> within s t')"
    by (rule for_of_refines_inv[where P = "within s"]) (use inner w in auto)
  then show ?thesis by (simp add: net_off64_def net_off_def)
qed

lemma owes_of_refines: "owes_of64 (row64_of r) = row64_of (owes_of r)"
  by (induction r) (auto simp: owes_of64_def owes_of_def row64_of_def gt0_64_to64)

lemma row64_of_simps:
  "row64_of [] = []" "row64_of ((k, v) # r) = (k, to64 v) # row64_of r"
  by (simp_all add: row64_of_def)

lemma owedBy_of_refines:
  assumes "\<And>a. L64 a = map_option row64_of (L a)"
  shows "owedBy_of64 L64 m xs = map_sum id row64_of (owedBy_of L m xs)"
proof (induction xs)
  case Nil
  then show ?case by (simp add: row64_of_simps)
next
  case (Cons x xs)
  have lx: "L64 x = map_option row64_of (L x)" by (rule assms)
  show ?case
  proof (cases "L x")
    case None
    then show ?thesis using lx by simp
  next
    case (Some r)
    show ?thesis
    proof (cases "owedBy_of L m xs")
      case (Inl e)
      have "owedBy_of64 L64 m xs = Inl e" by (simp add: Cons.IH Inl)
      then show ?thesis using Some Inl lx by simp
    next
      case (Inr ob)
      have "owedBy_of64 L64 m xs = Inr (row64_of ob)" by (simp add: Cons.IH Inr)
      then show ?thesis
        using Some Inr lx
        by (cases "map_of r m") (simp_all add: map_of_row64 gt0_64_to64 row64_of_simps)
    qed
  qed
qed

lemma shape_member_refines:
  "shape_member64 ids (acc64_of st) m = map_sum id balance64_of (shape_member ids st m)"
proof (cases "ledger st (md_id m)")
  case None
  then show ?thesis by (simp add: shape_member64_def shape_member_def acc64_of_def)
next
  case (Some r)
  show ?thesis
  proof (cases "owedBy_of (ledger st) (md_id m) ids")
    case (Inl e)
    then have "owedBy_of64 (map_option row64_of \<circ> ledger st) (md_id m) ids = Inl e"
      by (simp add: owedBy_of_refines[of _ "ledger st"])
    then show ?thesis
      using Some Inl by (simp add: shape_member64_def shape_member_def acc64_of_def)
  next
    case (Inr ob)
    then have "owedBy_of64 (map_option row64_of \<circ> ledger st) (md_id m) ids = Inr (row64_of ob)"
      by (simp add: owedBy_of_refines[of _ "ledger st"])
    then show ?thesis
      using Some Inr
      by (simp add: shape_member64_def shape_member_def acc64_of_def balance64_of_def
          owes_of_refines)
  qed
qed

lemma map_err_refines:
  assumes "\<And>x. x \<in> set xs \<Longrightarrow> f64 x = map_sum id h (f x)"
  shows "map_err f64 xs = map_sum id (map h) (map_err f xs)"
  using assms
proof (induction xs)
  case Nil
  then show ?case by simp
next
  case (Cons x xs)
  have e: "f64 x = map_sum id h (f x)" by (rule Cons.prems) simp
  have r: "map_err f64 xs = map_sum id (map h) (map_err f xs)"
    by (rule Cons.IH) (use Cons.prems in simp)
  show ?case
  proof (cases "f x")
    case (Inl err)
    then have "f64 x = Inl err" using e by simp
    then show ?thesis using Inl by simp
  next
    case (Inr y)
    then have e': "f64 x = Inr (h y)" using e by simp
    show ?thesis
    proof (cases "map_err f xs")
      case (Inl err)
      then have "map_err f64 xs = Inl err" using r by simp
      then show ?thesis using Inl Inr e' by simp
    next
      case ys: (Inr ys)
      then have "map_err f64 xs = Inr (map h ys)" using r by simp
      then show ?thesis using ys Inr e' by simp
    qed
  qed
qed

lemma shape_balances_refines:
  "shape_balances64 ids (acc64_of st) mds = map_sum id (map balance64_of) (shape_balances ids st mds)"
  unfolding shape_balances64_def shape_balances_def
  by (rule map_err_refines) (rule shape_member_refines)

lemma balances_refines:
  assumes "total_amount es ss \<le> 2 ^ 53"
  shows "balances64 mds (map expense64_of es) (map settlement64_of ss)
           = map_sum id (map balance64_of) (balances mds es ss)"
proof -
  define ids where "ids = map md_id mds"
  have b: "before_netting64 ids (map expense64_of es) (map settlement64_of ss)
             = map_sum id acc64_of (before_netting ids es ss)"
    and w: "\<And>st. before_netting ids es ss = Inr st \<Longrightarrow> within (total_amount es ss) st"
    using before_netting_refines[OF assms, of ids] by auto
  show ?thesis
  proof (cases "before_netting ids es ss")
    case (Inl e)
    then have "before_netting64 ids (map expense64_of es) (map settlement64_of ss) = Inl e"
      using b by simp
    then show ?thesis
      using Inl by (simp add: balances64_def balances_def netted64_def netted_def ids_def)
  next
    case (Inr st)
    then have b': "before_netting64 ids (map expense64_of es) (map settlement64_of ss)
                     = Inr (acc64_of st)"
      using b by simp
    have n: "net_off64 ids (acc64_of st) = map_sum id acc64_of (net_off ids st)"
      by (rule net_off_refines[OF w[OF Inr] assms])
    show ?thesis
    proof (cases "net_off ids st")
      case (Inl e)
      then have "net_off64 ids (acc64_of st) = Inl e" using n by simp
      then show ?thesis
        using Inl Inr b'
        by (simp add: balances64_def balances_def netted64_def netted_def ids_def[symmetric])
    next
      case st': (Inr st')
      then have "net_off64 ids (acc64_of st) = Inr (acc64_of st')" using n by simp
      then show ?thesis
        using st' Inr b'
        by (simp add: balances64_def balances_def netted64_def netted_def ids_def[symmetric]
            shape_balances_refines)
    qed
  qed
qed

subsection \<open>Sums in double precision\<close>

lemma plus_exact_to64_0: "plus_exact (to64 s) (Finite 0) = to64 s"
  by (cases s) (simp_all add: whole64_def dyadic_def)

lemma plus_exact_step:
  "plus_exact (to64 s) (exact_sum (map_option to64 v # vs))
     = plus_exact (to64 (js_plus s v)) (exact_sum vs)"
proof (cases s)
  case NaN
  then show ?thesis by simp
next
  case (Num a)
  show ?thesis
  proof (cases v)
    case None
    then show ?thesis using Num by (simp add: whole64_def dyadic_def)
  next
    case (Some u)
    then show ?thesis
      using Num
      by (cases u; cases "exact_sum vs")
        (simp_all add: whole64_def dyadic_def distrib_right add.assoc)
  qed
qed

lemma exact_sum_fold:
  "plus_exact (to64 s) (exact_sum (map (map_option to64) vs))
     = to64 (fold (\<lambda>v s. js_plus s v) vs s)"
proof (induction vs arbitrary: s)
  case Nil
  then show ?case by (simp add: plus_exact_to64_0)
next
  case (Cons v vs)
  have "plus_exact (to64 s) (exact_sum (map (map_option to64) (v # vs)))
          = plus_exact (to64 (js_plus s v)) (exact_sum (map (map_option to64) vs))"
    using plus_exact_step[of s v "map (map_option to64) vs"] by simp
  then show ?case using Cons.IH[of "js_plus s v"] by simp
qed

lemma plus_exact_cases: "(\<exists>n. plus_exact x y = Finite n) \<or> plus_exact x y = NotANumber"
  by (cases x; cases y) simp_all

lemma exact_sum_cases: "(\<exists>n. exact_sum vs = Finite n) \<or> exact_sum vs = NotANumber"
proof (cases vs)
  case Nil
  then show ?thesis by simp
next
  case (Cons v ws)
  then show ?thesis using plus_exact_cases by (cases v) simp_all
qed

lemma exact_sum_to64: "exact_sum (map (map_option to64) vs) = to64 (js_total vs)"
proof -
  have "exact_sum (map (map_option to64) vs)
          = plus_exact (to64 (Num 0)) (exact_sum (map (map_option to64) vs))"
    using exact_sum_cases[of "map (map_option to64) vs"]
    by (auto simp: whole64_def dyadic_def)
  then show ?thesis using exact_sum_fold[of "Num 0" vs] by (simp add: js_total_def)
qed

lemma reported_totals_refines:
  "map snd (reported_totals64 (map balance64_of bs))
     = map (map_option to64) (map snd (reported_totals bs))"
proof -
  define h :: "'a \<times> jsnum option \<Rightarrow> 'a \<times> float64 option"
    where "h = (\<lambda>p. (fst p, map_option to64 (snd p)))"
  have io: "inj (map_option to64)" by (rule option.inj_map[OF inj_to64])
  have inj: "inj_on h (set (map (\<lambda>b. (md_id b, totalBalance b)) bs))"
    by (auto simp: inj_on_def h_def dest: injD[OF io])
  have m: "map (\<lambda>b. (md_id b, totalBalance64 b)) (map balance64_of bs)
          = map h (map (\<lambda>b. (md_id b, totalBalance b)) bs)"
    by (simp add: h_def balance64_of_def)
  have r: "remdups (map h (map (\<lambda>b. (md_id b, totalBalance b)) bs))
          = map h (remdups (map (\<lambda>b. (md_id b, totalBalance b)) bs))"
    by (rule remdups_map_inj[OF inj])
  show ?thesis
    unfolding reported_totals64_def reported_totals_def m r by (simp add: h_def comp_def)
qed

lemma fold_js_plus64:
  assumes "\<And>k. \<bar>a + sum_list (map f (take k xs))\<bar> \<le> 2 ^ 53"
  shows "fold (\<lambda>v s. js_plus64 s v) (map (\<lambda>m. Some (whole64 (f m))) xs) (whole64 a)
           = whole64 (a + sum_list (map f xs))"
  using assms
proof (induction xs arbitrary: a)
  case Nil
  then show ?case by simp
next
  case (Cons x xs)
  have "\<bar>a + f x\<bar> \<le> 2 ^ 53" using Cons.prems[of 1] by simp
  then have s: "add64 (whole64 a) (whole64 (f x)) = whole64 (a + f x)" by (rule add64_whole)
  have "\<bar>a + f x + sum_list (map f (take k xs))\<bar> \<le> 2 ^ 53" for k
    using Cons.prems[of "Suc k"] by (simp add: add.assoc)
  then show ?case using Cons.IH[of "a + f x"] s by (simp add: add.assoc)
qed

lemma js_total64_sound:
  assumes so: "sound ids st" and w: "within s st" and b: "s \<le> 2 ^ 53"
  shows "js_total64 (map (totals64 (acc64_of st)) (remdups ids)) = Finite 0"
proof -
  define xs where "xs = remdups ids"
  have d: "distinct xs" and sub: "set xs = set ids" by (simp_all add: xs_def)
  have num: "totals64 (acc64_of st) m = Some (whole64 (net_total st m))"
    if mem: "m \<in> set xs" for m
  proof -
    obtain x where "totals st m = Some (Num x)" using so mem sub by (auto simp: sound_def)
    then show ?thesis by (simp add: acc64_of_def net_total_def)
  qed
  have m: "map (totals64 (acc64_of st)) xs = map (\<lambda>m. Some (whole64 (net_total st m))) xs"
    using num by simp
  have pre: "\<bar>0 + sum_list (map (net_total st) (take k xs))\<bar> \<le> 2 ^ 53" for k
  proof -
    have "distinct (take k xs)" using d by simp
    then have "sum_list (map (net_total st) (take k xs)) = (\<Sum>m\<in>set (take k xs). net_total st m)"
      by (rule sum_list_distinct_conv_sum_set)
    moreover have "\<bar>\<Sum>m\<in>set (take k xs). net_total st m\<bar> \<le> s"
      using w unfolding within_def by blast
    ultimately show ?thesis using b by simp
  qed
  have "sum_list (map (net_total st) xs) = (\<Sum>m\<in>set ids. net_total st m)"
    using sum_list_distinct_conv_sum_set[OF d, of "net_total st"] sub by simp
  then have z: "sum_list (map (net_total st) xs) = 0" using so by (simp add: sound_def)
  have "js_total64 (map (totals64 (acc64_of st)) xs)
          = fold (\<lambda>v s. js_plus64 s v) (map (\<lambda>m. Some (whole64 (net_total st m))) xs) (whole64 0)"
    by (simp add: js_total64_def m whole64_0)
  also have "\<dots> = whole64 (0 + sum_list (map (net_total st) xs))"
    by (rule fold_js_plus64[OF pre])
  finally have "js_total64 (map (totals64 (acc64_of st)) xs) = Finite 0"
    by (simp add: z whole64_0)
  then show ?thesis by (simp add: xs_def)
qed

lemma exact_sum_sound:
  assumes "sound ids st"
  shows "exact_sum (map (totals64 (acc64_of st)) (remdups ids)) = Finite 0"
proof -
  have m: "map (totals64 (acc64_of st)) (remdups ids)
          = map (map_option to64) (map (totals st) (remdups ids))"
    by (simp add: acc64_of_def)
  show ?thesis
    unfolding m exact_sum_to64 js_total_sound[OF assms] by (simp add: whole64_0)
qed

lemma whole_amounts_run:
  assumes v: "valid_input (map md_id mds) es ss" and b: "total_amount es ss \<le> 2 ^ 53"
  shows "\<exists>st bs. before_netting64 (map md_id mds) (map expense64_of es) (map settlement64_of ss)
                    = Inr (acc64_of st)
           \<and> sound (map md_id mds) st \<and> within (total_amount es ss) st
           \<and> balances64 mds (map expense64_of es) (map settlement64_of ss)
                    = Inr (map balance64_of bs)
           \<and> map snd (reported_totals64 (map balance64_of bs))
                    = map (totals64 (acc64_of st)) (remdups (map md_id mds))"
proof -
  define ids where "ids = map md_id mds"
  obtain st where st: "before_netting ids es ss = Inr st" "sound ids st"
    using before_netting_sound v unfolding ids_def by blast
  have w: "within (total_amount es ss) st"
    using before_netting_refines[OF b, of ids] st(1) by blast
  have b64: "before_netting64 ids (map expense64_of es) (map settlement64_of ss) = Inr (acc64_of st)"
    using before_netting_refines[OF b, of ids] st(1) by simp
  have dom: "set ids \<subseteq> dom (ledger st)" using st(2) by (simp add: sound_def)
  obtain st' where st': "net_off ids st = Inr st'" using net_off_succeeds[OF dom] by blast
  have t': "totals st' = totals st" by (rule net_off_totals[OF st'])
  have dom': "set ids \<subseteq> dom (ledger st')" using net_off_dom[OF st'] dom by simp
  obtain bs where bs: "shape_balances ids st' mds = Inr bs"
    using shape_balances_defined[OF dom', of mds] by (auto simp: ids_def)
  have "balances mds es ss = Inr bs"
    using st(1) st' bs by (simp add: balances_def netted_def ids_def Let_def)
  then have bal: "balances64 mds (map expense64_of es) (map settlement64_of ss)
                    = Inr (map balance64_of bs)"
    using balances_refines[OF b, of mds] by simp
  have "map snd (reported_totals64 (map balance64_of bs))
          = map (map_option to64) (map (totals st') (remdups ids))"
    using reported_totals_refines[of bs] reported_totals_shape[OF bs] by (simp add: ids_def)
  then have rep: "map snd (reported_totals64 (map balance64_of bs))
          = map (totals64 (acc64_of st)) (remdups ids)"
    by (simp add: t' acc64_of_def)
  show ?thesis using b64 st(2) w bal rep unfolding ids_def by blast
qed

subsection \<open>Computing with doubles\<close>

lemma dyadic_0: "dyadic 0 e = Finite 0"
  by (simp add: dyadic_def)

lemma round64_0: "round64 0 = Finite 0"
  using round64_dyadic[of 0 0] by (simp add: dyadic_0 round_int_def bits_nonpos nearest_even_0)

lemma add64_dyadic:
  assumes "\<bar>m + n\<bar> \<le> 2 ^ 60" and "e \<le> 1074"
  shows "add64 (dyadic m e) (dyadic n e) = dyadic (round_int (m + n)) e"
  using round64_dyadic[OF assms] by (simp add: dyadic_def distrib_right)

lemma add64_dyadic_0:
  assumes "\<bar>m\<bar> \<le> 2 ^ 60" and "e \<le> 1074"
  shows "add64 (dyadic m e) (Finite 0) = dyadic (round_int m) e"
    and "add64 (Finite 0) (dyadic m e) = dyadic (round_int m) e"
  using add64_dyadic[of m 0 e] add64_dyadic[of 0 m e] assms by (simp_all add: dyadic_0)

lemma neg64_dyadic: "neg64 (dyadic m e) = dyadic (- m) e"
  by (simp add: dyadic_def)

lemma gt0_64_dyadic: "gt0_64 (dyadic m e) \<longleftrightarrow> 0 < m"
  by (simp add: dyadic_def zero_less_mult_iff)

lemma lt0_64_dyadic: "lt0_64 (dyadic m e) \<longleftrightarrow> m < 0"
  by (simp add: dyadic_def mult_less_0_iff)

lemma dyadic_eq_iff: "dyadic m e = dyadic n e \<longleftrightarrow> m = n"
  by (simp add: dyadic_def)

lemma dyadic_eq_0_iff:
  "dyadic m e = Finite 0 \<longleftrightarrow> m = 0" "Finite 0 = dyadic m e \<longleftrightarrow> m = 0"
  by (simp_all add: dyadic_def)

lemma dyadic_not_nan: "dyadic m e \<noteq> NotANumber"
  by (simp add: dyadic_def)

lemma plus_exact_dyadic: "plus_exact (dyadic m e) (dyadic n e) = dyadic (m + n) e"
  by (simp add: dyadic_def distrib_right)

lemma plus_exact_dyadic_0: "plus_exact (dyadic m e) (Finite 0) = dyadic m e"
  by (simp add: dyadic_def)

lemma is_double_dyadic:
  assumes "\<bar>m\<bar> \<le> 2 ^ 60" and "e \<le> 1074" and "round_int m = m"
  shows "is_double (dyadic m e)"
proof -
  have "round64 (m * 2 ^ (1074 - e)) = dyadic m e"
    using round64_dyadic[OF assms(1,2)] assms(3) by simp
  then show ?thesis by (simp add: dyadic_def)
qed

lemma round_int_values:
  "round_int 9007199254740993 = 9007199254740992"
  "round_int 21617278211378382 = 21617278211378384"
  "round_int 14411518807585588 = 14411518807585588"
  "round_int (- 14411518807585588) = - 14411518807585588"
  "round_int 21617278211378384 = 21617278211378384"
  "round_int 14411518807585590 = 14411518807585590"
  by code_simp+

lemmas double_simps =
  whole64_def tenth_def fifth_def sub64_def dyadic_0 round64_0 add64_dyadic add64_dyadic_0
  neg64_dyadic gt0_64_dyadic lt0_64_dyadic dyadic_eq_iff dyadic_eq_0_iff dyadic_not_nan
  plus_exact_dyadic plus_exact_dyadic_0 round_int_exact round_int_values

lemma cx_large_before:
  "before_netting64 [''A'', ''B'', ''C''] [cx_large] [] = Inr cx_large_before"
  by (simp add: before_netting64_def apply_expenses64_def apply_expense64_def apply_split64_def
      apply_settlements64_def init64_def init_totals64_def init_ledger64_def init_row64_def
      cx_large_def cx_large_before_def Let_def fun_eq_iff double_simps)

lemma cx_small_before:
  "before_netting64 [''A'', ''B'', ''C''] [cx_small] [] = Inr cx_small_before"
  by (simp add: before_netting64_def apply_expenses64_def apply_expense64_def apply_split64_def
      apply_settlements64_def init64_def init_totals64_def init_ledger64_def init_row64_def
      cx_small_def cx_small_before_def Let_def fun_eq_iff double_simps)

subsection \<open>The counterexamples, step by step\<close>

lemma ex_ids: "map md_id ex_members = [''A'', ''B'', ''C'']"
  by (simp add: ex_members_def)

lemma ex_total: "total_amount [ex_expense] [ex_settlement] \<le> 2 ^ 53"
  by (simp add: total_amount_def expense_amount_def ex_expense_def ex_settlement_def)

lemma ex_self_total: "total_amount [ex_expense] ([ex_settlement] @ ex_self # []) \<le> 2 ^ 53"
  by (simp add: total_amount_def expense_amount_def ex_expense_def ex_settlement_def ex_self_def)

lemma cx_doubles:
  "is_double (whole64 (2 ^ 53))" "is_double (whole64 1)" "is_double tenth" "is_double fifth"
  by (simp_all add: whole64_def tenth_def fifth_def is_double_dyadic round_int_exact
      round_int_values)

lemma cx_large_output:
  "map_sum id reported_totals64 (balances64 ex_members [cx_large] [])
     = Inr [(''A'', Some (whole64 (2 ^ 53))), (''B'', Some (whole64 (- (2 ^ 53)))),
            (''C'', Some (whole64 (- 1)))]"
  by (simp add: balances64_def netted64_def ex_ids cx_large_before net_off64_def net_pair64_def
      shape_balances64_def shape_member64_def owes_of64_def reported_totals64_def
      cx_large_before_def ex_members_def Let_def double_simps)

lemma cx_small_output:
  "map_sum id reported_totals64 (balances64 ex_members [cx_small] [])
     = Inr [(''A'', Some (dyadic 21617278211378384 56)), (''B'', Some (neg64 tenth)),
            (''C'', Some (neg64 fifth))]"
  by (simp add: balances64_def netted64_def ex_ids cx_small_before net_off64_def net_pair64_def
      shape_balances64_def shape_member64_def owes_of64_def reported_totals64_def
      cx_small_before_def ex_members_def Let_def double_simps)

lemma cx_one_output:
  "map_sum id reported_totals64 (balances64 ex_members [cx_one] [])
     = Inr [(''A'', Some (whole64 1)), (''B'', Some (whole64 (- 1))), (''C'', Some (Finite 0))]"
  by (simp add: balances64_def netted64_def ex_ids before_netting64_def apply_expenses64_def
      apply_expense64_def apply_split64_def apply_settlements64_def apply_settlement64_def
      init64_def init_totals64_def init_ledger64_def init_row64_def
      net_off64_def net_pair64_def
      shape_balances64_def shape_member64_def owes_of64_def reported_totals64_def
      cx_one_def ex_members_def Let_def double_simps)

lemma cx_one_self_output:
  "map_sum id reported_totals64 (balances64 ex_members [cx_one] [cx_self_large])
     = Inr [(''A'', Some (Finite 0)), (''B'', Some (whole64 (- 1))), (''C'', Some (Finite 0))]"
  by (simp add: balances64_def netted64_def ex_ids before_netting64_def apply_expenses64_def
      apply_expense64_def apply_split64_def apply_settlements64_def apply_settlement64_def
      init64_def init_totals64_def init_ledger64_def init_row64_def
      net_off64_def net_pair64_def
      shape_balances64_def shape_member64_def owes_of64_def reported_totals64_def
      cx_one_def cx_self_large_def ex_members_def Let_def double_simps)

lemma cx_tenth_output:
  "map_sum id reported_totals64 (balances64 ex_members [cx_tenth] [])
     = Inr [(''A'', Some tenth), (''B'', Some (neg64 tenth)), (''C'', Some (Finite 0))]"
  by (simp add: balances64_def netted64_def ex_ids before_netting64_def apply_expenses64_def
      apply_expense64_def apply_split64_def apply_settlements64_def apply_settlement64_def
      init64_def init_totals64_def init_ledger64_def init_row64_def
      net_off64_def net_pair64_def
      shape_balances64_def shape_member64_def owes_of64_def reported_totals64_def
      cx_tenth_def ex_members_def Let_def double_simps)

lemma cx_tenth_self_output:
  "map_sum id reported_totals64 (balances64 ex_members [cx_tenth] [cx_self_small])
     = Inr [(''A'', Some (dyadic 7205759403792796 56)), (''B'', Some (neg64 tenth)),
            (''C'', Some (Finite 0))]"
  by (simp add: balances64_def netted64_def ex_ids before_netting64_def apply_expenses64_def
      apply_expense64_def apply_split64_def apply_settlements64_def apply_settlement64_def
      init64_def init_totals64_def init_ledger64_def init_row64_def
      net_off64_def net_pair64_def
      shape_balances64_def shape_member64_def owes_of64_def reported_totals64_def
      cx_tenth_def cx_self_small_def ex_members_def Let_def double_simps)

section \<open>The claims\<close>

text \<open>
  Claim C1 (conservation), corrected. In double precision the claim fails: see the
  counterexample below. It holds when every amount is a whole number and the absolute
  values of all split and settlement amounts total at most \<open>2^53\<close>. Then, for every member
  roster and every list of expenses and settlements whose payer, split-member and receiver
  ids all belong to the roster, steps 2 to 4 succeed and the net totals of the members,
  each member counted once, sum to 0 before the netting pass, as an exact sum and as
  JavaScript adds them in roster order; the whole computation succeeds too, and the
  \<open>totalBalance\<close> values of its output, each member counted once, sum to 0 in both senses.
\<close>

theorem conservation_whole_amounts:
  assumes "valid_input (map md_id memberDetails) expenses settlements"
    and "total_amount expenses settlements \<le> 2 ^ 53"
  shows "\<exists>st bs.
           before_netting64 (map md_id memberDetails) (map expense64_of expenses)
               (map settlement64_of settlements) = Inr st
           \<and> exact_sum (map (totals64 st) (remdups (map md_id memberDetails))) = Finite 0
           \<and> js_total64 (map (totals64 st) (remdups (map md_id memberDetails))) = Finite 0
           \<and> balances64 memberDetails (map expense64_of expenses)
               (map settlement64_of settlements) = Inr bs
           \<and> exact_sum (map snd (reported_totals64 bs)) = Finite 0
           \<and> js_total64 (map snd (reported_totals64 bs)) = Finite 0"
proof -
  obtain st bs where
    b: "before_netting64 (map md_id memberDetails) (map expense64_of expenses)
          (map settlement64_of settlements) = Inr (acc64_of st)"
    and so: "sound (map md_id memberDetails) st"
    and w: "within (total_amount expenses settlements) st"
    and bal: "balances64 memberDetails (map expense64_of expenses)
          (map settlement64_of settlements) = Inr (map balance64_of bs)"
    and rep: "map snd (reported_totals64 (map balance64_of bs))
          = map (totals64 (acc64_of st)) (remdups (map md_id memberDetails))"
    using whole_amounts_run[OF assms] by blast
  have e: "exact_sum (map (totals64 (acc64_of st)) (remdups (map md_id memberDetails))) = Finite 0"
    by (rule exact_sum_sound[OF so])
  have j: "js_total64 (map (totals64 (acc64_of st)) (remdups (map md_id memberDetails))) = Finite 0"
    by (rule js_total64_sound[OF so w assms(2)])
  show ?thesis
    using b bal e j by (intro exI[of _ "acc64_of st"] exI[of _ "map balance64_of bs"]) (simp add: rep)
qed

theorem conservation_whole_amounts_witness:
  "valid_input (map md_id ex_members) [ex_expense] [ex_settlement]
   \<and> total_amount [ex_expense] [ex_settlement] \<le> 2 ^ 53
   \<and> (\<exists>st bs.
           before_netting64 (map md_id ex_members) (map expense64_of [ex_expense])
               (map settlement64_of [ex_settlement]) = Inr st
           \<and> exact_sum (map (totals64 st) (remdups (map md_id ex_members))) = Finite 0
           \<and> js_total64 (map (totals64 st) (remdups (map md_id ex_members))) = Finite 0
           \<and> balances64 ex_members (map expense64_of [ex_expense])
               (map settlement64_of [ex_settlement]) = Inr bs
           \<and> exact_sum (map snd (reported_totals64 bs)) = Finite 0
           \<and> js_total64 (map snd (reported_totals64 bs)) = Finite 0)"
  by (rule conjI[OF ex_valid conjI[OF ex_total conservation_whole_amounts[OF ex_valid ex_total]]])

text \<open>
  The counterexamples to C1 as it stands. A pays; B owes \<open>2^53\<close> and C owes 1: the total
  of A is \<open>2^53 + 1\<close> rounded to \<open>2^53\<close>, and the totals sum to \<open>-1\<close>. A pays; B owes 0.1
  and C owes 0.2: the total of A is 0.30000000000000004, and the totals sum to \<open>2^-55\<close>.
  The roster is valid and every amount is a double; the sums are the same before the
  netting pass and in the output.
\<close>

theorem conservation_fails_in_doubles:
  "valid_input64 (map md_id ex_members) [cx_large] []
   \<and> list_all (\<lambda>sp. is_double (amount64 sp)) (splits64 cx_large)
   \<and> before_netting64 (map md_id ex_members) [cx_large] [] = Inr cx_large_before
   \<and> exact_sum (map (totals64 cx_large_before) (remdups (map md_id ex_members))) = whole64 (- 1)
   \<and> js_total64 (map (totals64 cx_large_before) (remdups (map md_id ex_members))) = whole64 (- 1)
   \<and> map_sum id reported_totals64 (balances64 ex_members [cx_large] [])
        = Inr [(''A'', Some (whole64 (2 ^ 53))), (''B'', Some (whole64 (- (2 ^ 53)))),
               (''C'', Some (whole64 (- 1)))]
   \<and> whole64 (- 1) \<noteq> Finite 0
   \<and> valid_input64 (map md_id ex_members) [cx_small] []
   \<and> list_all (\<lambda>sp. is_double (amount64 sp)) (splits64 cx_small)
   \<and> before_netting64 (map md_id ex_members) [cx_small] [] = Inr cx_small_before
   \<and> exact_sum (map (totals64 cx_small_before) (remdups (map md_id ex_members))) = dyadic 2 56
   \<and> js_total64 (map (totals64 cx_small_before) (remdups (map md_id ex_members))) = dyadic 2 56
   \<and> map_sum id reported_totals64 (balances64 ex_members [cx_small] [])
        = Inr [(''A'', Some (dyadic 21617278211378384 56)), (''B'', Some (neg64 tenth)),
               (''C'', Some (neg64 fifth))]
   \<and> dyadic 2 56 \<noteq> Finite 0"
proof -
  have v: "valid_input64 (map md_id ex_members) [cx_large] []"
    "valid_input64 (map md_id ex_members) [cx_small] []"
    by (simp_all add: valid_input64_def ex_ids cx_large_def cx_small_def)
  have d: "list_all (\<lambda>sp. is_double (amount64 sp)) (splits64 cx_large)"
    "list_all (\<lambda>sp. is_double (amount64 sp)) (splits64 cx_small)"
    using cx_doubles by (simp_all add: cx_large_def cx_small_def)
  have s1: "exact_sum (map (totals64 cx_large_before) (remdups (map md_id ex_members))) = whole64 (- 1)"
    "js_total64 (map (totals64 cx_large_before) (remdups (map md_id ex_members))) = whole64 (- 1)"
    by (simp_all add: ex_ids cx_large_before_def js_total64_def double_simps)
  have s2: "exact_sum (map (totals64 cx_small_before) (remdups (map md_id ex_members))) = dyadic 2 56"
    "js_total64 (map (totals64 cx_small_before) (remdups (map md_id ex_members))) = dyadic 2 56"
    by (simp_all add: ex_ids cx_small_before_def js_total64_def double_simps)
  have n: "whole64 (- 1) \<noteq> Finite 0" "dyadic 2 56 \<noteq> Finite 0"
    by (simp_all add: double_simps)
  show ?thesis
    using v d s1 s2 n cx_large_before cx_small_before cx_large_output cx_small_output
    by (simp only: ex_ids simp_thms)
qed

text \<open>
  Claim C2 (canonical single direction). For every valid input the netting pass is reached
  and returns, and afterwards, for any two distinct members \<open>a\<close> and \<open>b\<close>, both
  \<open>ledger[a][b]\<close> and \<open>ledger[b][a]\<close> are numbers that are not negative and at least one
  of them is 0: at most one direction is nonzero, and that one is strictly positive.
\<close>

theorem canonical_single_direction:
  assumes "valid_input ids expenses settlements"
  shows "\<exists>st. netted ids expenses settlements = Inr st \<and> canonical ids (ledger st)"
proof -
  obtain st where st: "before_netting ids expenses settlements = Inr st" "sound ids st"
    using before_netting_sound[OF assms] by blast
  then have "set ids \<subseteq> dom (ledger st)" by (simp add: sound_def)
  then obtain st' where st': "net_off ids st = Inr st'" using net_off_succeeds by blast
  then show ?thesis using st(1) net_off_canonical[OF st'] by (simp add: netted_def)
qed

theorem canonical_single_direction_witness:
  "valid_input [''A'', ''B'', ''C''] [ex_expense] [ex_settlement]
   \<and> (\<exists>st. netted [''A'', ''B'', ''C''] [ex_expense] [ex_settlement] = Inr st
          \<and> canonical [''A'', ''B'', ''C''] (ledger st))"
proof -
  have v: "valid_input [''A'', ''B'', ''C''] [ex_expense] [ex_settlement]"
    by (simp add: valid_input_def ex_expense_def ex_settlement_def)
  show ?thesis using canonical_single_direction[OF v] v by simp
qed

text \<open>
  Claim C3 (netting is idempotent). On every state whose ledger already has the canonical
  single direction for the roster, the netting pass returns the very same state: no entry
  of the ledger changes, not even its place in a row.
\<close>

theorem netting_idempotent:
  assumes "canonical ids (ledger st)"
  shows "net_off ids st = Inr st"
  using assms by (rule net_off_idem)

theorem netting_idempotent_witness:
  "canonical [''A'', ''B'', ''C''] (ledger ex_after)
   \<and> net_off [''A'', ''B'', ''C''] ex_after = Inr ex_after"
proof -
  have c: "canonical [''A'', ''B'', ''C''] (ledger ex_after)"
    by (simp add: canonical_def canonical_pair_def cell_def ex_after_def)
  show ?thesis using netting_idempotent[OF c] c by simp
qed

text \<open>
  Claim C4 (a split of a user outside the roster). The claim is that such a split is
  dropped. Here it is not: in a group with the members A and B, an expense paid by A with
  unsettled splits for A, B and the former member C makes the handler throw the
  \<open>TypeError\<close> of reading a property of \<open>undefined\<close> (the missing row \<open>ledger[C]\<close>),
  after the group, the expenses, the settlements and the two members have been read; the
  same input without the split of C gives the balances of A and B.
\<close>

theorem removed_member_split_throws:
  "getGroupExpenses ex_db ''A'' ''G''
     = ([Get ''G'', QueryExpenses ''G'', QuerySettlements ''G'', Get ''A'', Get ''B''],
        Inl TypeError)
   \<and> balances (take 2 ex_members) [ex_expense] [] = Inl TypeError
   \<and> balances (take 2 ex_members) [ex_expense\<lparr>splits := take 2 (splits ex_expense)\<rparr>] []
       = Inr [\<lparr>md_id = ''A'', md_name = ''Asha'', md_imageUrl = '''', md_role = ''admin'',
               totalBalance = Some (Num 10), owes = [], owedBy = [(''B'', Num 10)]\<rparr>,
              \<lparr>md_id = ''B'', md_name = ''Bo'', md_imageUrl = '''', md_role = ''member'',
               totalBalance = Some (Num (- 10)), owes = [(''A'', Num 10)], owedBy = []\<rparr>]"
proof (intro conjI)
  show b: "balances (take 2 ex_members) [ex_expense] [] = Inl TypeError"
    by code_simp
  have m: "map_err (member_detail ex_db) (members ex_group) = Inr (take 2 ex_members)"
    by (simp add: member_detail_def ex_db_def ex_group_def ex_members_def)
  have e: "filter (\<lambda>e. groupId e = ''G'') (db_expenses ex_db) = [ex_expense]"
    "filter (\<lambda>s. s_groupId s = ''G'') (db_settlements ex_db) = []"
    by (simp_all add: ex_db_def ex_expense_def)
  have g: "db_groups ex_db ''G'' = Some ex_group" by (simp add: ex_db_def ex_group_def)
  have u: "list_ex (\<lambda>m. m_userId m = ''A'') (members ex_group)" by (simp add: ex_group_def)
  show "getGroupExpenses ex_db ''A'' ''G''
     = ([Get ''G'', QueryExpenses ''G'', QuerySettlements ''G'', Get ''A'', Get ''B''],
        Inl TypeError)"
    unfolding getGroupExpenses_def by (simp add: g u m e b) (simp add: ex_group_def)
  show "balances (take 2 ex_members) [ex_expense\<lparr>splits := take 2 (splits ex_expense)\<rparr>] []
       = Inr [\<lparr>md_id = ''A'', md_name = ''Asha'', md_imageUrl = '''', md_role = ''admin'',
               totalBalance = Some (Num 10), owes = [], owedBy = [(''B'', Num 10)]\<rparr>,
              \<lparr>md_id = ''B'', md_name = ''Bo'', md_imageUrl = '''', md_role = ''member'',
               totalBalance = Some (Num (- 10)), owes = [(''A'', Num 10)], owedBy = []\<rparr>]"
    by code_simp
qed

text \<open>
  Claim C5 (self-exclusion and settled splits). A split whose user is the payer of its
  expense, or whose \<open>paid\<close> flag is set, contributes nothing: removing it from its expense
  leaves the state before netting, the state after netting and the balances unchanged
  (and an input that throws still throws). Consequently no expense ever writes a cell
  \<open>ledger[m][m]\<close>: after step 3 every such cell is still missing.
\<close>

theorem excluded_split_contributes_nothing:
  assumes "userId sp = paidByUserId e \<or> paid sp" and "splits e = s1 @ sp # s2"
  shows "before_netting ids (es1 @ e # es2) settlements
           = before_netting ids (es1 @ e\<lparr>splits := s1 @ s2\<rparr> # es2) settlements
       \<and> netted ids (es1 @ e # es2) settlements
           = netted ids (es1 @ e\<lparr>splits := s1 @ s2\<rparr> # es2) settlements
       \<and> balances memberDetails (es1 @ e # es2) settlements
           = balances memberDetails (es1 @ e\<lparr>splits := s1 @ s2\<rparr> # es2) settlements
       \<and> (\<forall>st m. apply_expenses (init ids) (es1 @ e # es2) = Inr st
             \<longrightarrow> cell (ledger st) m m = None)"
proof -
  have b: "before_netting xs (es1 @ e # es2) settlements
           = before_netting xs (es1 @ e\<lparr>splits := s1 @ s2\<rparr> # es2) settlements" for xs
    using apply_expenses_drop[OF assms] by (simp add: before_netting_def)
  then show ?thesis
    using apply_expenses_no_self[of ids "es1 @ e # es2"]
    by (simp add: netted_def balances_def no_self_def)
qed

theorem excluded_split_contributes_nothing_witness:
  "(userId \<lparr>userId = ''A'', amount = 10, paid = False\<rparr> = paidByUserId ex_expense
      \<or> paid \<lparr>userId = ''A'', amount = 10, paid = False\<rparr>)
   \<and> splits ex_expense = [] @ \<lparr>userId = ''A'', amount = 10, paid = False\<rparr>
        # [\<lparr>userId = ''B'', amount = 10, paid = False\<rparr>,
           \<lparr>userId = ''C'', amount = 10, paid = False\<rparr>]
   \<and> balances ex_members ([] @ ex_expense # []) [ex_settlement]
       = balances ex_members
           ([] @ ex_expense\<lparr>splits := [] @ [\<lparr>userId = ''B'', amount = 10, paid = False\<rparr>,
                                           \<lparr>userId = ''C'', amount = 10, paid = False\<rparr>]\<rparr> # [])
           [ex_settlement]
   \<and> (userId \<lparr>userId = ''C'', amount = 10, paid = True\<rparr> = paidByUserId ex_paid
      \<or> paid \<lparr>userId = ''C'', amount = 10, paid = True\<rparr>)
   \<and> splits ex_paid = [\<lparr>userId = ''B'', amount = 10, paid = False\<rparr>]
        @ \<lparr>userId = ''C'', amount = 10, paid = True\<rparr> # []
   \<and> balances ex_members ([] @ ex_paid # []) []
       = balances ex_members
           ([] @ ex_paid\<lparr>splits := [\<lparr>userId = ''B'', amount = 10, paid = False\<rparr>] @ []\<rparr> # []) []
   \<and> map_sum id (map totalBalance) (balances ex_members [ex_paid] [])
       = Inr [Some (Num 10), Some (Num (- 10)), Some (Num 0)]"
proof -
  have h1: "userId \<lparr>userId = ''A'', amount = 10, paid = False\<rparr> = paidByUserId ex_expense
      \<or> paid \<lparr>userId = ''A'', amount = 10, paid = False\<rparr>"
    by (simp add: ex_expense_def)
  have h2: "splits ex_expense = [] @ \<lparr>userId = ''A'', amount = 10, paid = False\<rparr>
        # [\<lparr>userId = ''B'', amount = 10, paid = False\<rparr>,
           \<lparr>userId = ''C'', amount = 10, paid = False\<rparr>]"
    by (simp add: ex_expense_def)
  have k1: "userId \<lparr>userId = ''C'', amount = 10, paid = True\<rparr> = paidByUserId ex_paid
      \<or> paid \<lparr>userId = ''C'', amount = 10, paid = True\<rparr>"
    by simp
  have k2: "splits ex_paid = [\<lparr>userId = ''B'', amount = 10, paid = False\<rparr>]
        @ \<lparr>userId = ''C'', amount = 10, paid = True\<rparr> # []"
    by (simp add: ex_paid_def)
  have v: "map_sum id (map totalBalance) (balances ex_members [ex_paid] [])
       = Inr [Some (Num 10), Some (Num (- 10)), Some (Num 0)]"
    by code_simp
  show ?thesis
    using excluded_split_contributes_nothing[OF h1 h2, of "[]" "[]" "[]" "[ex_settlement]" ex_members]
      excluded_split_contributes_nothing[OF k1 k2, of "[]" "[]" "[]" "[]" ex_members]
      h1 h2 k1 k2 v by blast
qed

text \<open>
  Claim C6 (overpayment reverses the direction). Let A and B be distinct members, and let
  the ledger after the expenses hold \<open>ledger[B][A] = x\<close> and \<open>ledger[A][B] = y\<close> with
  \<open>y\<close> not negative. A settlement paid by B to A of more than \<open>x\<close> leaves the negative
  entry \<open>ledger[B][A] = x - amount\<close>, and the netting pass turns it into
  \<open>ledger[A][B] = y + amount - x\<close> and \<open>ledger[B][A] = 0\<close>. With \<open>x = 10\<close>, \<open>y = 0\<close>
  and the amount 15 this is \<open>ledger[A][B] = 5\<close> and \<open>ledger[B][A] = 0\<close>.
\<close>

theorem overpayment_reverses_direction:
  assumes "apply_expenses (init ids) expenses = Inr st"
    and "A \<in> set ids" and "B \<in> set ids" and "A \<noteq> B"
    and "cell (ledger st) B A = Some (Num x)" and "cell (ledger st) A B = Some (Num y)"
    and "0 \<le> y" and "x < s_amount s"
    and "s_paidByUserId s = B" and "s_receivedByUserId s = A"
  shows "\<exists>st1 st2. apply_settlements st [s] = Inr st1
           \<and> cell (ledger st1) B A = Some (Num (x - s_amount s))
           \<and> cell (ledger st1) A B = Some (Num y)
           \<and> net_off ids st1 = Inr st2
           \<and> cell (ledger st2) A B = Some (Num (y + s_amount s - x))
           \<and> cell (ledger st2) B A = Some (Num 0)"
proof -
  have t: "tidy ids st" by (rule apply_expenses_tidy[OF tidy_init assms(1)])
  obtain r where r: "ledger st B = Some r" "map_of r A = Some (Num x)"
    using assms(5) by (auto simp: cell_def split: option.splits)
  obtain st1 where st1: "apply_settlement st s = Inr st1"
    and L1: "ledger st1 = (ledger st)(B \<mapsto> put A (Num (x - s_amount s)) r)"
    using r assms(9,10) by (simp add: apply_settlement_def Let_def)
  have c1: "cell (ledger st1) B A = Some (Num (x - s_amount s))"
    by (simp add: L1 cell_def map_of_put)
  have c2: "cell (ledger st1) A B = Some (Num y)"
    using assms(4,6) by (simp add: L1 cell_def)
  have t1: "tidy ids st1" by (rule apply_settlement_tidy[OF t st1])
  then obtain st2 where st2: "net_off ids st1 = Inr st2"
    using net_off_succeeds[of ids st1] by (auto simp: tidy_def)
  have "cell (ledger st2) A B = Some (Num (max 0 (y - (x - s_amount s))))
      \<and> cell (ledger st2) B A = Some (Num (max 0 (x - s_amount s - y)))"
    by (rule net_off_numeric[OF st2 assms(2,3,4) c2 c1])
  moreover have "max 0 (y - (x - s_amount s)) = y + s_amount s - x"
    "max 0 (x - s_amount s - y) = 0"
    using assms(7,8) by auto
  ultimately show ?thesis
    using st1 c1 c2 st2 by (simp add: apply_settlements_def)
qed

theorem overpayment_reverses_direction_witness:
  "apply_expenses (init [''A'', ''B'', ''C'']) [ex_expense] = Inr ex_accrued
   \<and> cell (ledger ex_accrued) ''B'' ''A'' = Some (Num 10)
   \<and> cell (ledger ex_accrued) ''A'' ''B'' = Some (Num 0)
   \<and> s_paidByUserId ex_settlement = ''B'' \<and> s_receivedByUserId ex_settlement = ''A''
   \<and> s_amount ex_settlement = 15
   \<and> (\<exists>st1 st2. apply_settlements ex_accrued [ex_settlement] = Inr st1
           \<and> cell (ledger st1) ''B'' ''A'' = Some (Num (- 5))
           \<and> net_off [''A'', ''B'', ''C''] st1 = Inr st2
           \<and> cell (ledger st2) ''A'' ''B'' = Some (Num 5)
           \<and> cell (ledger st2) ''B'' ''A'' = Some (Num 0))"
proof -
  have c: "cell (ledger ex_accrued) ''B'' ''A'' = Some (Num 10)"
    "cell (ledger ex_accrued) ''A'' ''B'' = Some (Num 0)"
    by (simp_all add: cell_def ex_accrued_def)
  have s: "s_paidByUserId ex_settlement = ''B''" "s_receivedByUserId ex_settlement = ''A''"
    "s_amount ex_settlement = 15"
    by (simp_all add: ex_settlement_def)
  have "\<exists>st1 st2. apply_settlements ex_accrued [ex_settlement] = Inr st1
           \<and> cell (ledger st1) ''B'' ''A'' = Some (Num (10 - s_amount ex_settlement))
           \<and> cell (ledger st1) ''A'' ''B'' = Some (Num 0)
           \<and> net_off [''A'', ''B'', ''C''] st1 = Inr st2
           \<and> cell (ledger st2) ''A'' ''B'' = Some (Num (0 + s_amount ex_settlement - 10))
           \<and> cell (ledger st2) ''B'' ''A'' = Some (Num 0)"
    by (rule overpayment_reverses_direction[OF ex_apply_expenses _ _ _ c _ _ s(1,2)])
       (simp_all add: s)
  then show ?thesis using ex_apply_expenses c s by auto
qed

text \<open>
  Claim C7 (abort before compute). When the group does not exist, or exists and the
  current user is not among its members, the handler has read the group only, throws
  ("Group not found", respectively "You are not a member of this group") and returns no
  response; its result does not depend on the users, the expenses or the settlements in
  the database.
\<close>

theorem abort_before_compute:
  assumes "db_groups db gid = None
         \<or> (\<exists>g. db_groups db gid = Some g \<and> currentUser \<notin> m_userId ` set (members g))"
  shows "getGroupExpenses db currentUser gid
           = ([Get gid], Inl (if db_groups db gid = None then GroupNotFound else NotAMember))
       \<and> (\<forall>us es ss.
            getGroupExpenses (db\<lparr>db_users := us, db_expenses := es, db_settlements := ss\<rparr>)
              currentUser gid
            = getGroupExpenses db currentUser gid)"
  using assms by (auto simp: getGroupExpenses_def list_ex_iff)

theorem abort_before_compute_witness:
  "db_groups ex_db ''H'' = None
   \<and> getGroupExpenses ex_db ''A'' ''H'' = ([Get ''H''], Inl GroupNotFound)
   \<and> db_groups ex_db ''G'' = Some ex_group
   \<and> ''Z'' \<notin> m_userId ` set (members ex_group)
   \<and> getGroupExpenses ex_db ''Z'' ''G'' = ([Get ''G''], Inl NotAMember)"
proof -
  have h1: "db_groups ex_db ''H'' = None" by (simp add: ex_db_def)
  have h2: "db_groups ex_db ''G'' = Some ex_group" by (simp add: ex_db_def ex_group_def)
  have h3: "''Z'' \<notin> m_userId ` set (members ex_group)" by (simp add: ex_group_def)
  show ?thesis
    using abort_before_compute[of ex_db "''H''" "''A''"]
      abort_before_compute[of ex_db "''G''" "''Z''"] h1 h2 h3
    by simp
qed

text \<open>
  Claim C8 (a self-settlement is invisible in the output), corrected. In double precision
  the claim fails: see the counterexample below. It holds when every amount is a whole
  number and the absolute values of all split and settlement amounts, the self-settlement
  included, total at most \<open>2^53\<close>. Then adding, anywhere in the list of settlements, a
  settlement whose payer is also its receiver and is a member of the group leaves the
  balances as they are: every \<open>totalBalance\<close>, every \<open>owes\<close> list and every \<open>owedBy\<close>
  list.
\<close>

theorem self_settlement_whole_amounts:
  assumes "s_paidByUserId s = s_receivedByUserId s"
    and "s_paidByUserId s \<in> md_id ` set memberDetails"
    and "total_amount expenses (ss1 @ s # ss2) \<le> 2 ^ 53"
  shows "balances64 memberDetails (map expense64_of expenses)
             (map settlement64_of (ss1 @ s # ss2))
       = balances64 memberDetails (map expense64_of expenses)
             (map settlement64_of (ss1 @ ss2))"
proof -
  have "total_amount expenses (ss1 @ ss2) \<le> total_amount expenses (ss1 @ s # ss2)"
    by (simp add: total_amount_def)
  then have le: "total_amount expenses (ss1 @ ss2) \<le> 2 ^ 53" using assms(3) by linarith
  have "balances64 memberDetails (map expense64_of expenses) (map settlement64_of (ss1 @ s # ss2))
          = map_sum id (map balance64_of) (balances memberDetails expenses (ss1 @ s # ss2))"
    by (rule balances_refines[OF assms(3)])
  also have "\<dots> = map_sum id (map balance64_of) (balances memberDetails expenses (ss1 @ ss2))"
    by (simp only: self_settlement_exact[OF assms(1,2)])
  also have "\<dots> = balances64 memberDetails (map expense64_of expenses)
                      (map settlement64_of (ss1 @ ss2))"
    by (rule balances_refines[OF le, symmetric])
  finally show ?thesis .
qed

theorem self_settlement_whole_amounts_witness:
  "s_paidByUserId ex_self = s_receivedByUserId ex_self
   \<and> s_paidByUserId ex_self \<in> md_id ` set ex_members
   \<and> total_amount [ex_expense] ([ex_settlement] @ ex_self # []) \<le> 2 ^ 53
   \<and> balances64 ex_members (map expense64_of [ex_expense])
         (map settlement64_of ([ex_settlement] @ ex_self # []))
       = balances64 ex_members (map expense64_of [ex_expense])
         (map settlement64_of ([ex_settlement] @ []))
   \<and> isl (balances64 ex_members (map expense64_of [ex_expense])
         (map settlement64_of ([ex_settlement] @ []))) = False"
proof -
  have h1: "s_paidByUserId ex_self = s_receivedByUserId ex_self" by (simp add: ex_self_def)
  have h2: "s_paidByUserId ex_self \<in> md_id ` set ex_members"
    by (simp add: ex_self_def ex_members_def)
  have "isl (balances ex_members [ex_expense] ([ex_settlement] @ [])) = False"
    by code_simp
  moreover have "total_amount [ex_expense] ([ex_settlement] @ []) \<le> 2 ^ 53"
    using ex_total by simp
  ultimately have ok: "isl (balances64 ex_members (map expense64_of [ex_expense])
         (map settlement64_of ([ex_settlement] @ []))) = False"
    using balances_refines[of "[ex_expense]" "[ex_settlement] @ []" ex_members]
    by (simp add: isl_map_sum)
  show ?thesis
    by (rule conjI[OF h1 conjI[OF h2 conjI[OF ex_self_total
          conjI[OF self_settlement_whole_amounts[OF h1 h2 ex_self_total] ok]]]])
qed

text \<open>
  The counterexamples to C8 as it stands. B owes A the amount 1 and A settles \<open>2^53\<close> with
  themselves: the total of A goes through \<open>1 + 2^53\<close>, which rounds to \<open>2^53\<close>, and
  ends as 0 instead of 1. B owes A the amount 0.1 and A settles 0.2 with themselves: the
  total of A ends as 0.10000000000000003 instead of 0.1. The inputs are valid and every
  amount is a double.
\<close>

theorem self_settlement_visible_in_doubles:
  "valid_input64 (map md_id ex_members) [cx_one] ([] @ cx_self_large # [])
   \<and> s_paidByUserId64 cx_self_large = s_receivedByUserId64 cx_self_large
   \<and> is_double (s_amount64 cx_self_large)
   \<and> list_all (\<lambda>sp. is_double (amount64 sp)) (splits64 cx_one)
   \<and> map_sum id reported_totals64 (balances64 ex_members [cx_one] ([] @ cx_self_large # []))
        = Inr [(''A'', Some (Finite 0)), (''B'', Some (whole64 (- 1))), (''C'', Some (Finite 0))]
   \<and> map_sum id reported_totals64 (balances64 ex_members [cx_one] ([] @ []))
        = Inr [(''A'', Some (whole64 1)), (''B'', Some (whole64 (- 1))), (''C'', Some (Finite 0))]
   \<and> balances64 ex_members [cx_one] ([] @ cx_self_large # [])
        \<noteq> balances64 ex_members [cx_one] ([] @ [])
   \<and> valid_input64 (map md_id ex_members) [cx_tenth] ([] @ cx_self_small # [])
   \<and> s_paidByUserId64 cx_self_small = s_receivedByUserId64 cx_self_small
   \<and> is_double (s_amount64 cx_self_small)
   \<and> list_all (\<lambda>sp. is_double (amount64 sp)) (splits64 cx_tenth)
   \<and> map_sum id reported_totals64 (balances64 ex_members [cx_tenth] ([] @ cx_self_small # []))
        = Inr [(''A'', Some (dyadic 7205759403792796 56)), (''B'', Some (neg64 tenth)),
               (''C'', Some (Finite 0))]
   \<and> map_sum id reported_totals64 (balances64 ex_members [cx_tenth] ([] @ []))
        = Inr [(''A'', Some tenth), (''B'', Some (neg64 tenth)), (''C'', Some (Finite 0))]
   \<and> balances64 ex_members [cx_tenth] ([] @ cx_self_small # [])
        \<noteq> balances64 ex_members [cx_tenth] ([] @ [])"
proof -
  have v: "valid_input64 (map md_id ex_members) [cx_one] [cx_self_large]"
    "valid_input64 (map md_id ex_members) [cx_tenth] [cx_self_small]"
    by (simp_all add: valid_input64_def ex_ids cx_one_def cx_tenth_def cx_self_large_def
        cx_self_small_def)
  have p: "s_paidByUserId64 cx_self_large = s_receivedByUserId64 cx_self_large"
    "s_paidByUserId64 cx_self_small = s_receivedByUserId64 cx_self_small"
    by (simp_all add: cx_self_large_def cx_self_small_def)
  have d: "is_double (s_amount64 cx_self_large)" "is_double (s_amount64 cx_self_small)"
    "list_all (\<lambda>sp. is_double (amount64 sp)) (splits64 cx_one)"
    "list_all (\<lambda>sp. is_double (amount64 sp)) (splits64 cx_tenth)"
    using cx_doubles by (simp_all add: cx_self_large_def cx_self_small_def cx_one_def cx_tenth_def)
  have n1: "balances64 ex_members [cx_one] [cx_self_large] \<noteq> balances64 ex_members [cx_one] []"
  proof
    assume "balances64 ex_members [cx_one] [cx_self_large] = balances64 ex_members [cx_one] []"
    then have "map_sum id reported_totals64 (balances64 ex_members [cx_one] [cx_self_large])
                = map_sum id reported_totals64 (balances64 ex_members [cx_one] [])"
      by simp
    then show False by (simp add: cx_one_output cx_one_self_output double_simps)
  qed
  have n2: "balances64 ex_members [cx_tenth] [cx_self_small] \<noteq> balances64 ex_members [cx_tenth] []"
  proof
    assume "balances64 ex_members [cx_tenth] [cx_self_small] = balances64 ex_members [cx_tenth] []"
    then have "map_sum id reported_totals64 (balances64 ex_members [cx_tenth] [cx_self_small])
                = map_sum id reported_totals64 (balances64 ex_members [cx_tenth] [])"
      by simp
    then show False by (simp add: cx_tenth_output cx_tenth_self_output double_simps)
  qed
  show ?thesis
    using v p d n1 n2 cx_one_output cx_one_self_output cx_tenth_output cx_tenth_self_output
    by (simp only: append_Nil simp_thms)
qed

text \<open>
  Claim C9 (netting frames the net totals). The netting pass changes the ledger only: the
  \<open>totals\<close> after it are the \<open>totals\<close> before it, and the \<open>totalBalance\<close> of every
  member in the shaped output is the member's net total from before the netting pass.
\<close>

theorem netting_frames_totals:
  assumes "net_off ids st = Inr st'" and "shape_balances ids st' memberDetails = Inr bs"
  shows "totals st' = totals st
       \<and> map totalBalance bs = map (\<lambda>m. totals st (md_id m)) memberDetails"
proof -
  have t: "totals st' = totals st" by (rule net_off_totals[OF assms(1)])
  have "map snd (map (\<lambda>b. (md_id b, totalBalance b)) bs)
          = map snd (map (\<lambda>m. (md_id m, totals st' (md_id m))) memberDetails)"
    using shape_balances_totals[OF assms(2)] by simp
  then show ?thesis using t by (simp add: comp_def)
qed

theorem netting_frames_totals_witness:
  "net_off [''A'', ''B'', ''C''] ex_before = Inr ex_after
   \<and> totals ex_after = totals ex_before
   \<and> (\<exists>bs. shape_balances [''A'', ''B'', ''C''] ex_after ex_members = Inr bs
         \<and> map totalBalance bs = [Some (Num 5), Some (Num 5), Some (Num (- 10))])"
proof -
  obtain bs where bs: "shape_balances [''A'', ''B'', ''C''] ex_after ex_members = Inr bs"
    using shape_balances_defined[of "[''A'', ''B'', ''C'']" ex_after ex_members]
    by (auto simp: ex_after_def ex_members_def)
  have "map (\<lambda>m. totals ex_before (md_id m)) ex_members
          = [Some (Num 5), Some (Num 5), Some (Num (- 10))]"
    by (simp add: ex_before_def ex_members_def)
  then show ?thesis
    using netting_frames_totals[OF ex_net_off bs] ex_net_off bs by auto
qed



end
